theory Spec2Isabelle
  imports Complex_Main "HOL-Library.Multiset" "HOL-Library.Sublist"
begin

section \<open>Data model (src/app/types/Article.ts)\<close>

text \<open>
  A JavaScript string is a sequence of code units; \<open>length\<close>, \<open>substring\<close> and
  \<open>lastIndexOf\<close> count code units. Strings are modelled as \<open>string\<close> (a list of
  \<open>char\<close>), one \<open>char\<close> per code unit, which covers the code units below 256.
\<close>

record ArticleMetadata =
  title :: string
  date :: string
  tags :: "string list"
  summary :: string
  author :: string
  slug :: string

text \<open>
  \<open>Article\<close> is \<open>ArticleListItem\<close> plus the raw \<open>content\<close>; the record extension
  lets both share the selectors \<open>metadata\<close>, \<open>excerpt\<close>, \<open>readingTime\<close>,
  \<open>filename\<close> and \<open>path\<close>.
\<close>

record ArticleListItem =
  metadata :: ArticleMetadata
  excerpt :: string
  readingTime :: int
  filename :: string
  path :: string

record Article = ArticleListItem +
  content :: string

record BlogConfig =
  articlesPerPage :: nat
  excerptLength :: int
  dateFormat :: string

datatype SortBy = ByDate | ByTitle

datatype SortOrder = Asc | Desc

record TagCount =
  tag :: string
  count :: nat

record ArticleSearchResult =
  articles :: "ArticleListItem list"
  totalCount :: nat
  currentPage :: int
  totalPages :: int
  hasNextPage :: bool
  hasPreviousPage :: bool

text \<open>Optional fields of \<open>ArticleSearchParams\<close> are \<open>None\<close> when absent.\<close>

record ArticleSearchParams =
  query :: "string option"
  tag :: "string option"
  page :: "int option"
  sortBy :: "SortBy option"
  sortOrder :: "SortOrder option"

text \<open>
  The \<open>data\<close> object that gray-matter returns for a document: a key that is absent
  is \<open>None\<close>; \<open>fm_tags\<close> is \<open>None\<close> when the key is absent or its value is not an
  array.
\<close>

record FrontMatter =
  fm_title :: "string option"
  fm_date :: "string option"
  fm_tags :: "string list option"
  fm_summary :: "string option"
  fm_author :: "string option"
  fm_slug :: "string option"

text \<open>
  What the service takes from outside the repository, as parameters:
  \<^item> \<open>fetchText name\<close>: the body of \<open>fetch('/pages/articles/' + name)\<close>, \<open>None\<close> when
    the request fails or the response is not ok;
  \<^item> \<open>matter text\<close>: gray-matter's \<open>(data, content)\<close>, \<open>None\<close> when it throws;
  \<^item> \<open>slugify\<close>: the slugify package with the options of \<open>generateSlug\<close>;
  \<^item> \<open>getTime s\<close>: \<open>new Date(s).getTime()\<close>, \<open>None\<close> for \<open>NaN\<close> (an invalid date);
  \<^item> \<open>localeCompare\<close>: \<open>String.prototype.localeCompare\<close>.
\<close>

record Externals =
  fetchText :: "string \<Rightarrow> string option"
  matter :: "string \<Rightarrow> (FrontMatter \<times> string) option"
  slugify :: "string \<Rightarrow> string"
  getTime :: "string \<Rightarrow> int option"
  localeCompare :: "string \<Rightarrow> string \<Rightarrow> int"

text \<open>The service object: its only mutable field is the index \<open>this.articles\<close>.\<close>

record ArticlesService =
  articles :: "Article list"

definition config :: BlogConfig where
  "config = \<lparr>articlesPerPage = 10, excerptLength = 200, dateFormat = ''MMMM dd, yyyy''\<rparr>"

section \<open>JavaScript built-ins used by the service\<close>

text \<open>The class \<open>\s\<close> of a regular expression, and the characters \<open>trim\<close> removes.\<close>

definition is_space :: "char \<Rightarrow> bool" where
  "is_space c \<longleftrightarrow> c \<in> {CHR 0x09, CHR 0x0A, CHR 0x0B, CHR 0x0C, CHR 0x0D, CHR 0x20, CHR 0xA0}"

text \<open>The characters that \<open>.\<close> does not match.\<close>

definition is_line_terminator :: "char \<Rightarrow> bool" where
  "is_line_terminator c \<longleftrightarrow> c = CHR 0x0A \<or> c = CHR 0x0D"

definition trim :: "string \<Rightarrow> string" where
  "trim s = rev (dropWhile is_space (rev (dropWhile is_space s)))"

text \<open>\<open>s.substring(0, n)\<close>: a negative \<open>n\<close> counts as 0, one beyond the end as the length.\<close>

definition substring0 :: "string \<Rightarrow> int \<Rightarrow> string" where
  "substring0 s n = take (nat n) s"

text \<open>\<open>s.lastIndexOf(c)\<close> for a single character: \<open>-1\<close> when \<open>c\<close> does not occur.\<close>

definition lastIndexOf :: "string \<Rightarrow> char \<Rightarrow> int" where
  "lastIndexOf s c =
     (if c \<in> set s then int (length s) - 1 - int (length (takeWhile (\<lambda>x. x \<noteq> c) (rev s)))
      else - 1)"

text \<open>\<open>s.includes(q)\<close>: \<open>q\<close> occurs in \<open>s\<close> as a contiguous run.\<close>

fun js_includes :: "'a list \<Rightarrow> 'a list \<Rightarrow> bool" where
  "js_includes [] q = (q = [])"
| "js_includes (c # cs) q = (prefix q (c # cs) \<or> js_includes cs q)"

text \<open>
  \<open>toLowerCase\<close> on code units below 256: A to Z and the capital letters
  U+00C0 to U+00DE (without the multiplication sign U+00D7) move up by 32.
\<close>

definition lower_char :: "char \<Rightarrow> char" where
  "lower_char c =
     (let n = (of_char c :: nat)
      in if (65 \<le> n \<and> n \<le> 90) \<or> (192 \<le> n \<and> n \<le> 222 \<and> n \<noteq> 215)
         then char_of (n + 32) else c)"

definition toLowerCase :: "string \<Rightarrow> string" where
  "toLowerCase s = map lower_char s"

text \<open>
  \<open>xs.slice(start, stop)\<close>: a negative index counts from the end, and both are clamped
  to the array.
\<close>

definition slice :: "'a list \<Rightarrow> int \<Rightarrow> int \<Rightarrow> 'a list" where
  "slice xs start stop =
     (let len = int (length xs);
          k = (if start < 0 then max (len + start) 0 else min start len);
          final = (if stop < 0 then max (len + stop) 0 else min stop len)
      in take (nat (final - k)) (drop (nat k) xs))"

text \<open>
  \<open>Array.prototype.sort(cmp)\<close>. The comparator returns a number, \<open>None\<close> standing for
  \<open>NaN\<close>, which the sort reads as \<open>+0\<close>. The sort is stable, so for a consistent
  comparator its result is the one of a stable insertion sort, which is the model; for
  an inconsistent comparator the order is implementation-defined and the model is one
  of the permitted results.
\<close>

definition sortCompare :: "('a \<Rightarrow> 'a \<Rightarrow> int option) \<Rightarrow> 'a \<Rightarrow> 'a \<Rightarrow> int" where
  "sortCompare cmp x y = (case cmp x y of None \<Rightarrow> 0 | Some v \<Rightarrow> v)"

fun insort_cmp :: "('a \<Rightarrow> 'a \<Rightarrow> int option) \<Rightarrow> 'a \<Rightarrow> 'a list \<Rightarrow> 'a list" where
  "insort_cmp cmp x [] = [x]"
| "insort_cmp cmp x (y # ys) =
     (if sortCompare cmp x y \<le> 0 then x # y # ys else y # insort_cmp cmp x ys)"

definition sort_cmp :: "('a \<Rightarrow> 'a \<Rightarrow> int option) \<Rightarrow> 'a list \<Rightarrow> 'a list" where
  "sort_cmp cmp xs = foldr (insort_cmp cmp) xs []"

text \<open>Subtraction and negation of numbers that may be \<open>NaN\<close>.\<close>

definition num_sub :: "int option \<Rightarrow> int option \<Rightarrow> int option" where
  "num_sub a b = (case (a, b) of (Some x, Some y) \<Rightarrow> Some (x - y) | _ \<Rightarrow> None)"

definition num_neg :: "int option \<Rightarrow> int option" where
  "num_neg a = map_option uminus a"

section \<open>Regular-expression replacement\<close>

text \<open>
  \<open>s.replace(/re/g, repl)\<close> scans \<open>s\<close> from the left: where the expression matches,
  the replacement is emitted and the scan goes on behind the match; elsewhere the
  character is kept. A matcher \<open>m\<close> returns, for a match at the start of its argument,
  the replacement text and the input left behind the match. No expression of the service
  matches the empty string, so the input left is always shorter (lemmas \<open>m_*_shorter\<close>).
\<close>

function replace_all :: "(string \<Rightarrow> (string \<times> string) option) \<Rightarrow> string \<Rightarrow> string" where
  "replace_all m [] = []"
| "replace_all m (c # cs) =
     (case m (c # cs) of
        None \<Rightarrow> c # replace_all m cs
      | Some (out, rest) \<Rightarrow>
          if length rest < length (c # cs) then out @ replace_all m rest
          else c # replace_all m cs)"
  by pat_completeness auto
termination
  by (relation "measure (\<lambda>(m, s). length s)") auto

text \<open>\<open>/#{1,6}\s+/\<close>: up to six hashes, greedily, then whitespace.\<close>

definition m_header :: "string \<Rightarrow> (string \<times> string) option" where
  "m_header s =
     (let k = length (takeWhile (\<lambda>x. x = CHR ''#'') s);
          rest = drop (min 6 k) s
      in if 1 \<le> k \<and> rest \<noteq> [] \<and> is_space (hd rest)
         then Some ([], dropWhile is_space rest) else None)"

text \<open>
  The lazy group \<open>(.*?)\<close> or \<open>[\s\S]*?\<close> followed by a literal closing delimiter: the
  first position where the delimiter starts, reached over characters that satisfy
  \<open>ok\<close>. The result is the group and the input behind the delimiter.
\<close>

fun find_close :: "string \<Rightarrow> (char \<Rightarrow> bool) \<Rightarrow> string \<Rightarrow> (string \<times> string) option" where
  "find_close cl ok [] = (if cl = [] then Some ([], []) else None)"
| "find_close cl ok (c # cs) =
     (if prefix cl (c # cs) then Some ([], drop (length cl) (c # cs))
      else if ok c then
        (case find_close cl ok cs of
           None \<Rightarrow> None
         | Some (g, rest) \<Rightarrow> Some (c # g, rest))
      else None)"

text \<open>An opening delimiter, a lazy group and a closing delimiter; \<open>keep\<close> says whether
  the replacement is the group (\<open>'$1'\<close>) or empty.\<close>

definition m_delim :: "string \<Rightarrow> (char \<Rightarrow> bool) \<Rightarrow> bool \<Rightarrow> string \<Rightarrow> (string \<times> string) option" where
  "m_delim d ok keep s =
     (if prefix d s then
        (case find_close d ok (drop (length d) s) of
           None \<Rightarrow> None
         | Some (g, rest) \<Rightarrow> Some (if keep then g else [], rest))
      else None)"

definition not_line_terminator :: "char \<Rightarrow> bool" where
  "not_line_terminator c \<longleftrightarrow> \<not> is_line_terminator c"

text \<open>\<open>/\*\*(.*?)\*\*/\<close>, \<open>/\*(.*?)\*/\<close>, \<open>/`(.*?)`/\<close> and \<open>/```[\s\S]*?```/\<close>.\<close>

definition m_bold :: "string \<Rightarrow> (string \<times> string) option" where
  "m_bold = m_delim ''**'' not_line_terminator True"

definition m_italic :: "string \<Rightarrow> (string \<times> string) option" where
  "m_italic = m_delim ''*'' not_line_terminator True"

definition m_code :: "string \<Rightarrow> (string \<times> string) option" where
  "m_code = m_delim ''`'' not_line_terminator True"

definition m_fence :: "string \<Rightarrow> (string \<times> string) option" where
  "m_fence = m_delim ''```'' (\<lambda>c. True) False"

text \<open>\<open>/\[([^\]]+)\]\([^)]+\)/\<close>: the replacement is the link text.\<close>

definition m_link :: "string \<Rightarrow> (string \<times> string) option" where
  "m_link s =
     (case s of
        [] \<Rightarrow> None
      | c # r1 \<Rightarrow>
          (let text = takeWhile (\<lambda>x. x \<noteq> CHR '']'') r1;
               r2 = drop (length text) r1;
               url = takeWhile (\<lambda>x. x \<noteq> CHR '')'') (drop 2 r2);
               r3 = drop (length url) (drop 2 r2)
           in if c = CHR ''['' \<and> text \<noteq> [] \<and> prefix ''](''  r2 \<and> url \<noteq> [] \<and> prefix '')'' r3
              then Some (text, drop 1 r3) else None))"

text \<open>
  \<open>/\n\s*\n/\<close>: a newline, then whitespace up to the last newline of the whitespace
  run (the greedy \<open>\s*\<close> gives back as little as it must).
\<close>

definition m_blank :: "string \<Rightarrow> (string \<times> string) option" where
  "m_blank s =
     (case s of
        [] \<Rightarrow> None
      | c # r \<Rightarrow>
          (let ws = takeWhile is_space r
           in if c = CHR 0x0A \<and> CHR 0x0A \<in> set ws
              then Some ('' '', rev (takeWhile (\<lambda>x. x \<noteq> CHR 0x0A) (rev ws)) @ dropWhile is_space r)
              else None))"

text \<open>\<open>/\s+/\<close>: a maximal run of whitespace.\<close>

definition m_ws :: "string \<Rightarrow> (string \<times> string) option" where
  "m_ws s =
     (case s of
        [] \<Rightarrow> None
      | c # r \<Rightarrow> if is_space c then Some ('' '', dropWhile is_space r) else None)"

section \<open>Field derivation (ArticlesService.ts)\<close>

definition generateSlug :: "Externals \<Rightarrow> string \<Rightarrow> string" where
  "generateSlug E t = slugify E t"

text \<open>The chain of replacements of \<open>extractExcerpt\<close>, in the order of the source.\<close>

definition plainText :: "string \<Rightarrow> string" where
  "plainText c =
     trim (replace_all m_ws (replace_all m_blank (replace_all m_link (replace_all m_fence
       (replace_all m_code (replace_all m_italic (replace_all m_bold
         (replace_all m_header c))))))))"

text \<open>
  The test \<open>lastSpaceIndex > length * 0.8\<close> is written over the reals. The source
  computes the product in double precision; for an integer \<open>length\<close> (below 2^50)
  the comparison with the integer \<open>lastSpaceIndex\<close> comes out the same: when
  \<open>length\<close> is a multiple of 5 the double product is the exact integer, and otherwise
  the exact product is at least 0.2 away from every integer.
\<close>

definition extractExcerpt :: "string \<Rightarrow> int \<Rightarrow> string" where
  "extractExcerpt c len =
     (let plain = plainText c
      in if int (length plain) \<le> len then plain
         else
           (let truncated = substring0 plain len;
                lastSpaceIndex = lastIndexOf truncated CHR '' ''
            in if real_of_int lastSpaceIndex > real_of_int len * 0.8
               then substring0 truncated lastSpaceIndex @ ''...''
               else truncated @ ''...''))"

text \<open>
  \<open>content.trim().split(/\s+/).length\<close>: one more than the number of whitespace runs
  of the trimmed text.
\<close>

fun count_ws_runs :: "string \<Rightarrow> nat" where
  "count_ws_runs [] = 0"
| "count_ws_runs [c] = (if is_space c then 1 else 0)"
| "count_ws_runs (c # d # cs) =
     (if is_space c \<and> \<not> is_space d then 1 else 0) + count_ws_runs (d # cs)"

definition calculateReadingTime :: "string \<Rightarrow> int" where
  "calculateReadingTime c =
     (let wordsPerMinute = 200 :: nat;
          words = count_ws_runs (trim c) + 1
      in \<lceil>real words / real wordsPerMinute\<rceil>)"

section \<open>Content loader\<close>

definition getArticleFiles :: "string list" where
  "getArticleFiles =
     [''apache-execcgi-fpm.md'',
      ''linux-performance-monitoring.md'',
      ''ai-model-deployment-kubernetes.md'',
      ''docker-optimization-production.md'',
      ''rust-system-tools-development.md'']"

text \<open>JavaScript truthiness of an optional string: absent and empty are falsy.\<close>

definition truthy :: "string option \<Rightarrow> bool" where
  "truthy v = (case v of None \<Rightarrow> False | Some s \<Rightarrow> s \<noteq> [])"

text \<open>\<open>v || d\<close> for an optional string.\<close>

definition or_else :: "string option \<Rightarrow> string \<Rightarrow> string" where
  "or_else v d = (case v of None \<Rightarrow> d | Some s \<Rightarrow> if s = [] then d else s)"

text \<open>
  \<open>loadSingleArticle\<close>: \<open>None\<close> is the source's \<open>null\<close>, returned when the fetch
  fails, when gray-matter throws (both caught inside the function) and when a required
  field is missing.
\<close>

definition loadSingleArticle :: "Externals \<Rightarrow> string \<Rightarrow> Article option" where
  "loadSingleArticle E name =
     (case fetchText E name of
        None \<Rightarrow> None
      | Some fileContent \<Rightarrow>
          (case matter E fileContent of
             None \<Rightarrow> None
           | Some (d, body) \<Rightarrow>
               if \<not> truthy (fm_title d) \<or> \<not> truthy (fm_date d) \<or> \<not> truthy (fm_author d)
               then None
               else
                 (let md = \<lparr>title = the (fm_title d),
                            date = the (fm_date d),
                            tags = (case fm_tags d of None \<Rightarrow> [] | Some ts \<Rightarrow> ts),
                            summary = or_else (fm_summary d) [],
                            author = the (fm_author d),
                            slug = or_else (fm_slug d) (generateSlug E (the (fm_title d)))\<rparr>
                  in Some \<lparr>metadata = md,
                           excerpt = extractExcerpt body (excerptLength config),
                           readingTime = calculateReadingTime body,
                           filename = name,
                           path = ''/article/'' @ slug md,
                           content = body\<rparr>)))"

text \<open>The loop of \<open>loadArticles\<close>: the articles pushed onto \<open>loadedArticles\<close>.\<close>

fun loadedArticles :: "Externals \<Rightarrow> string list \<Rightarrow> Article list" where
  "loadedArticles E [] = []"
| "loadedArticles E (name # names) =
     (case loadSingleArticle E name of
        None \<Rightarrow> loadedArticles E names
      | Some a \<Rightarrow> a # loadedArticles E names)"

text \<open>The comparator of \<open>loadArticles\<close>: \<open>time(b) - time(a)\<close>.\<close>

definition cmp_newest_first :: "Externals \<Rightarrow> Article \<Rightarrow> Article \<Rightarrow> int option" where
  "cmp_newest_first E a b =
     num_sub (getTime E (date (metadata b))) (getTime E (date (metadata a)))"

text \<open>
  \<open>loadArticles\<close>. Nothing in the \<open>try\<close> block throws (\<open>getArticleFiles\<close> returns a
  constant and \<open>loadSingleArticle\<close> catches its own errors), so the outer \<open>catch\<close>
  is never entered.
\<close>

definition loadArticles :: "Externals \<Rightarrow> ArticlesService \<Rightarrow> ArticlesService" where
  "loadArticles E s =
     s\<lparr>articles := sort_cmp (cmp_newest_first E) (loadedArticles E getArticleFiles)\<rparr>"

section \<open>Public operations\<close>

text \<open>
  Every operation takes the service and returns its result with the service, since
  \<open>getArticles\<close> may load the index. The operations are modelled as awaited one after
  the other.
\<close>

definition getArticles :: "Externals \<Rightarrow> ArticlesService \<Rightarrow> Article list \<times> ArticlesService" where
  "getArticles E s =
     (let s' = (if length (articles s) = 0 then loadArticles E s else s)
      in (articles s', s'))"


definition getArticlesList ::
  "Externals \<Rightarrow> ArticlesService \<Rightarrow> ArticleListItem list \<times> ArticlesService" where
  "getArticlesList E s =
     (case getArticles E s of
        (as, s') \<Rightarrow>
          (map (\<lambda>article. \<lparr>metadata = metadata article,
                            excerpt = excerpt article,
                            readingTime = readingTime article,
                            filename = filename article,
                            path = path article\<rparr>) as, s'))"

text \<open>The predicate of the query filter; \<open>q\<close> is the query in lower case.\<close>

definition matchesQuery :: "string \<Rightarrow> ArticleListItem \<Rightarrow> bool" where
  "matchesQuery q article \<longleftrightarrow>
     js_includes (toLowerCase (title (metadata article))) q \<or>
     js_includes (toLowerCase (summary (metadata article))) q \<or>
     list_ex (\<lambda>t. js_includes (toLowerCase t) q) (tags (metadata article)) \<or>
     js_includes (toLowerCase (excerpt article)) q"

text \<open>The two filters of \<open>searchArticles\<close>, each behind a truthiness test.\<close>

definition applyFilters :: "ArticleSearchParams \<Rightarrow> ArticleListItem list \<Rightarrow> ArticleListItem list" where
  "applyFilters params as =
     (let as1 = (if truthy (query params)
                 then filter (matchesQuery (toLowerCase (the (query params)))) as
                 else as)
      in if truthy (tag params)
         then filter (\<lambda>article. the (tag params) \<in> set (tags (metadata article))) as1
         else as1)"

text \<open>The comparator of \<open>searchArticles\<close>.\<close>

definition searchCompare ::
  "Externals \<Rightarrow> ArticleSearchParams \<Rightarrow> ArticleListItem \<Rightarrow> ArticleListItem \<Rightarrow> int option" where
  "searchCompare E params a b =
     (let by = (case sortBy params of None \<Rightarrow> ByDate | Some k \<Rightarrow> k);
          ord = (case sortOrder params of None \<Rightarrow> Desc | Some d \<Rightarrow> d);
          comparison =
            (case by of
               ByDate \<Rightarrow> num_sub (getTime E (date (metadata a))) (getTime E (date (metadata b)))
             | ByTitle \<Rightarrow> Some (localeCompare E (title (metadata a)) (title (metadata b))))
      in if ord = Desc then num_neg comparison else comparison)"

text \<open>The list that \<open>searchArticles\<close> paginates: filtered, then sorted.\<close>

definition filteredSorted ::
  "Externals \<Rightarrow> ArticleSearchParams \<Rightarrow> ArticleListItem list \<Rightarrow> ArticleListItem list" where
  "filteredSorted E params as = sort_cmp (searchCompare E params) (applyFilters params as)"

text \<open>\<open>params.page || 1\<close>: an absent page and page 0 are page 1.\<close>

definition pageOf :: "ArticleSearchParams \<Rightarrow> int" where
  "pageOf params = (case page params of None \<Rightarrow> 1 | Some p \<Rightarrow> if p = 0 then 1 else p)"

definition searchArticles ::
  "Externals \<Rightarrow> ArticlesService \<Rightarrow> ArticleSearchParams \<Rightarrow> ArticleSearchResult \<times> ArticlesService" where
  "searchArticles E s params =
     (case getArticlesList E s of
        (as, s') \<Rightarrow>
          (let sorted = filteredSorted E params as;
               pg = pageOf params;
               perPage = articlesPerPage config;
               total = length sorted;
               pages = \<lceil>real total / real perPage\<rceil>;
               startIndex = (pg - 1) * int perPage;
               endIndex = startIndex + int perPage
           in (\<lparr>ArticleSearchResult.articles = slice sorted startIndex endIndex,
                totalCount = total,
                currentPage = pg,
                totalPages = pages,
                hasNextPage = (pg < pages),
                hasPreviousPage = (pg > 1)\<rparr>, s')))"

text \<open>
  A JavaScript \<open>Map\<close> keeps its keys in insertion order: an association list, where
  \<open>set\<close> on a present key keeps the key's place and on a new key appends.
\<close>

fun map_set :: "('k \<times> 'v) list \<Rightarrow> 'k \<Rightarrow> 'v \<Rightarrow> ('k \<times> 'v) list" where
  "map_set [] k v = [(k, v)]"
| "map_set ((k', v') # m) k v = (if k' = k then (k, v) # m else (k', v') # map_set m k v)"

definition map_get :: "('k \<times> 'v) list \<Rightarrow> 'k \<Rightarrow> 'v option" where
  "map_get m k = map_of m k"

text \<open>\<open>tagCounts.set(tag, (tagCounts.get(tag) || 0) + 1)\<close>.\<close>

definition countTag :: "(string \<times> nat) list \<Rightarrow> string \<Rightarrow> (string \<times> nat) list" where
  "countTag m t = map_set m t ((case map_get m t of None \<Rightarrow> 0 | Some n \<Rightarrow> n) + 1)"

definition tagCounts :: "Article list \<Rightarrow> (string \<times> nat) list" where
  "tagCounts as = foldl (\<lambda>m article. foldl countTag m (tags (metadata article))) [] as"

definition getAllTags :: "Externals \<Rightarrow> ArticlesService \<Rightarrow> TagCount list \<times> ArticlesService" where
  "getAllTags E s =
     (case getArticles E s of
        (as, s') \<Rightarrow>
          (sort_cmp (\<lambda>a b. Some (int (TagCount.count b) - int (TagCount.count a)))
             (map (\<lambda>(t, c). \<lparr>TagCount.tag = t, count = c\<rparr>) (tagCounts as)), s'))"

section \<open>Loads in flight\<close>

text \<open>
  \<open>loadArticles\<close> is asynchronous: it suspends at each \<open>await\<close>, and the constructor
  and \<open>getArticles\<close> may start it again while an earlier call is suspended.
  JavaScript runs one piece of code at a time, so an execution is a sequence of events:
  a call of \<open>getArticles\<close>, or the resumption of one suspended load. A suspended load
  holds the file names its loop has not reached and its local \<open>loadedArticles\<close>.
\<close>

record LoadTask =
  remaining :: "string list"
  loadedSoFar :: "Article list"

text \<open>\<open>retrievals\<close> lists the file names passed to \<open>fetch\<close>, oldest first.\<close>

record World =
  service :: ArticlesService
  inFlight :: "LoadTask list"
  retrievals :: "string list"

datatype Event = GetArticles | Resume nat

text \<open>A call of \<open>loadArticles\<close> runs up to its first \<open>await\<close>.\<close>

definition startLoad :: "World \<Rightarrow> World" where
  "startLoad w = w\<lparr>inFlight := inFlight w @ [\<lparr>remaining = getArticleFiles, loadedSoFar = []\<rparr>]\<rparr>"

text \<open>
  \<open>new ArticlesService()\<close>: the index is empty and the constructor has called
  \<open>loadArticles\<close> without awaiting it.
\<close>

definition construct :: World where
  "construct = startLoad \<lparr>service = \<lparr>articles = []\<rparr>, inFlight = [], retrievals = []\<rparr>"

text \<open>
  A resumed load fetches and processes the next file of its loop; with no file left it
  sorts what it has loaded, assigns \<open>this.articles\<close> and ends.
\<close>

definition resume :: "Externals \<Rightarrow> nat \<Rightarrow> World \<Rightarrow> World" where
  "resume E i w =
     (if i < length (inFlight w) then
        (let t = inFlight w ! i
         in case remaining t of
              [] \<Rightarrow>
                w\<lparr>service := (service w)\<lparr>articles := sort_cmp (cmp_newest_first E) (loadedSoFar t)\<rparr>,
                  inFlight := take i (inFlight w) @ drop (Suc i) (inFlight w)\<rparr>
            | f # fs \<Rightarrow>
                w\<lparr>inFlight := (inFlight w)
                     [i := \<lparr>remaining = fs,
                            loadedSoFar = loadedSoFar t @
                              (case loadSingleArticle E f of None \<Rightarrow> [] | Some a \<Rightarrow> [a])\<rparr>],
                  retrievals := retrievals w @ [f]\<rparr>)
      else w)"

text \<open>The synchronous part of \<open>getArticles\<close>: the test of the index and the call.\<close>

fun step :: "Externals \<Rightarrow> World \<Rightarrow> Event \<Rightarrow> World" where
  "step E w GetArticles = (if length (articles (service w)) = 0 then startLoad w else w)"
| "step E w (Resume i) = resume E i w"

definition run :: "Externals \<Rightarrow> Event list \<Rightarrow> World \<Rightarrow> World" where
  "run E evs w = foldl (step E) w evs"

section \<open>A sample document set\<close>

text \<open>
  Five documents under the five known names, used to run the service on concrete
  input. The text of a document is its name; \<open>demo_matter\<close> gives its metadata and
  body. Two documents declare the slug \<open>shared\<close>, two carry the same date, one lists
  a tag twice and one has no author.
\<close>

definition demo_matter :: "string \<Rightarrow> (FrontMatter \<times> string) option" where
  "demo_matter t =
     (if t = ''apache-execcgi-fpm.md'' then
        Some (\<lparr>fm_title = Some ''Apache ExecCGI'', fm_date = Some ''2022-09-22'',
               fm_tags = Some [''apache'', ''php'', ''apache''], fm_summary = Some ''Run PHP'',
               fm_author = Some ''Alberto'', fm_slug = Some ''shared''\<rparr>,
              ''# Apache and **FPM** together'')
      else if t = ''linux-performance-monitoring.md'' then
        Some (\<lparr>fm_title = Some ''Linux Monitoring'', fm_date = Some ''2024-01-20'',
               fm_tags = Some [''linux''], fm_summary = None,
               fm_author = Some ''Alberto'', fm_slug = None\<rparr>,
              ''Watch `top` output'')
      else if t = ''ai-model-deployment-kubernetes.md'' then
        Some (\<lparr>fm_title = Some ''AI on Kubernetes'', fm_date = Some ''2024-01-20'',
               fm_tags = None, fm_summary = Some ''Serving models'',
               fm_author = Some ''Alberto'', fm_slug = Some ''ai-k8s''\<rparr>,
              ''Deploy with [Triton](https://triton.example)'')
      else if t = ''docker-optimization-production.md'' then
        Some (\<lparr>fm_title = Some ''Docker'', fm_date = Some ''2023-11-08'',
               fm_tags = Some [''docker'', ''php''], fm_summary = Some '''',
               fm_author = Some ''Alberto'', fm_slug = Some ''shared''\<rparr>,
              ''# Docker'')
      else if t = ''rust-system-tools-development.md'' then
        Some (\<lparr>fm_title = Some ''Rust'', fm_date = Some ''2023-05-01'',
               fm_tags = None, fm_summary = None,
               fm_author = None, fm_slug = None\<rparr>,
              ''Rust tools'')
      else None)"

definition demo_getTime :: "string \<Rightarrow> int option" where
  "demo_getTime d =
     (if d = ''2024-01-20'' then Some 1705708800000
      else if d = ''2023-11-08'' then Some 1699401600000
      else if d = ''2022-09-22'' then Some 1663804800000
      else None)"

definition demo_slugify :: "string \<Rightarrow> string" where
  "demo_slugify t = map (\<lambda>c. if c = CHR '' '' then CHR ''-'' else lower_char c) t"

fun demo_localeCompare :: "string \<Rightarrow> string \<Rightarrow> int" where
  "demo_localeCompare [] [] = 0"
| "demo_localeCompare [] (b # bs) = - 1"
| "demo_localeCompare (a # as) [] = 1"
| "demo_localeCompare (a # as) (b # bs) =
     (if (of_char a :: nat) < of_char b then - 1
      else if (of_char b :: nat) < of_char a then 1
      else demo_localeCompare as bs)"

definition demoExt :: Externals where
  "demoExt = \<lparr>fetchText = Some, matter = demo_matter, slugify = demo_slugify,
               getTime = demo_getTime, localeCompare = demo_localeCompare\<rparr>"

definition emptyService :: ArticlesService where
  "emptyService = \<lparr>articles = []\<rparr>"

text \<open>The four articles that load from the sample documents.\<close>

definition demo_linux :: Article where
  "demo_linux =
     \<lparr>metadata = \<lparr>title = ''Linux Monitoring'', date = ''2024-01-20'', tags = [''linux''],
                   summary = '''', author = ''Alberto'', slug = ''linux-monitoring''\<rparr>,
      excerpt = ''Watch top output'', readingTime = 1,
      filename = ''linux-performance-monitoring.md'', path = ''/article/linux-monitoring'',
      content = ''Watch `top` output''\<rparr>"

definition demo_ai :: Article where
  "demo_ai =
     \<lparr>metadata = \<lparr>title = ''AI on Kubernetes'', date = ''2024-01-20'', tags = [],
                   summary = ''Serving models'', author = ''Alberto'', slug = ''ai-k8s''\<rparr>,
      excerpt = ''Deploy with Triton'', readingTime = 1,
      filename = ''ai-model-deployment-kubernetes.md'', path = ''/article/ai-k8s'',
      content = ''Deploy with [Triton](https://triton.example)''\<rparr>"

definition demo_docker :: Article where
  "demo_docker =
     \<lparr>metadata = \<lparr>title = ''Docker'', date = ''2023-11-08'', tags = [''docker'', ''php''],
                   summary = '''', author = ''Alberto'', slug = ''shared''\<rparr>,
      excerpt = ''Docker'', readingTime = 1,
      filename = ''docker-optimization-production.md'', path = ''/article/shared'',
      content = ''# Docker''\<rparr>"

definition demo_apache :: Article where
  "demo_apache =
     \<lparr>metadata = \<lparr>title = ''Apache ExecCGI'', date = ''2022-09-22'',
                   tags = [''apache'', ''php'', ''apache''],
                   summary = ''Run PHP'', author = ''Alberto'', slug = ''shared''\<rparr>,
      excerpt = ''Apache and FPM together'', readingTime = 1,
      filename = ''apache-execcgi-fpm.md'', path = ''/article/shared'',
      content = ''# Apache and **FPM** together''\<rparr>"

definition demoParams :: ArticleSearchParams where
  "demoParams = \<lparr>query = None, tag = None, page = None, sortBy = None, sortOrder = None\<rparr>"

section \<open>Properties named by the specification\<close>



text \<open>The pages 1 to \<open>totalPages\<close> of a search, one after the other.\<close>

definition allPages ::
  "Externals \<Rightarrow> ArticlesService \<Rightarrow> ArticleSearchParams \<Rightarrow> ArticleListItem list" where
  "allPages E s params =
     concat (map (\<lambda>p. ArticleSearchResult.articles
                        (fst (searchArticles E s (params\<lparr>page := Some (int p)\<rparr>))))
               [1 ..< Suc (nat (totalPages (fst (searchArticles E s params))))])"

text \<open>The query is a case-insensitive substring of a text.\<close>

definition ciSubstring :: "string \<Rightarrow> string \<Rightarrow> bool" where
  "ciSubstring q t \<longleftrightarrow> sublist (toLowerCase q) (toLowerCase t)"

definition queryMatches :: "string \<Rightarrow> ArticleListItem \<Rightarrow> bool" where
  "queryMatches q a \<longleftrightarrow>
     ciSubstring q (title (metadata a)) \<or> ciSubstring q (summary (metadata a)) \<or>
     (\<exists>t \<in> set (tags (metadata a)). ciSubstring q t) \<or> ciSubstring q (excerpt a)"

text \<open>The tags of an index in the order met, and two ways of counting one of them.\<close>

definition tagsInOrder :: "Article list \<Rightarrow> string list" where
  "tagsInOrder as = concat (map (\<lambda>a. tags (metadata a)) as)"

definition firstEncountered :: "string list \<Rightarrow> string list" where
  "firstEncountered ts = rev (remdups (rev ts))"

definition occurrences :: "Article list \<Rightarrow> string \<Rightarrow> nat" where
  "occurrences as t = count_list (tagsInOrder as) t"

definition articlesCarrying :: "Article list \<Rightarrow> string \<Rightarrow> nat" where
  "articlesCarrying as t = length (filter (\<lambda>a. t \<in> set (tags (metadata a))) as)"

text \<open>The index of the last whitespace character of a text.\<close>

definition lastWhitespace :: "string \<Rightarrow> nat option" where
  "lastWhitespace t =
     (if list_ex is_space t
      then Some (length t - 1 - length (takeWhile (\<lambda>c. \<not> is_space c) (rev t)))
      else None)"

text \<open>
  Truncation as the specification words it: cut at \<open>maxLength\<close>, back up to the last
  whitespace when it lies at or after 80% of \<open>maxLength\<close>, append the ellipsis.
\<close>

definition truncateAtOrAfter :: "string \<Rightarrow> int \<Rightarrow> string" where
  "truncateAtOrAfter plain maxLength =
     (let t = take (nat maxLength) plain
      in case lastWhitespace t of
           None \<Rightarrow> t @ ''...''
         | Some i \<Rightarrow>
             if real_of_int maxLength * 0.8 \<le> real i then take i t @ ''...'' else t @ ''...'')"

text \<open>The same with the boundary strictly after 80% of \<open>maxLength\<close>.\<close>

definition truncateStrictlyAfter :: "string \<Rightarrow> int \<Rightarrow> string" where
  "truncateStrictlyAfter plain maxLength =
     (let t = take (nat maxLength) plain
      in case lastWhitespace t of
           None \<Rightarrow> t @ ''...''
         | Some i \<Rightarrow>
             if real_of_int maxLength * 0.8 < real i then take i t @ ''...'' else t @ ''...'')"

text \<open>
  \<open>desc_by key cmp S\<close>: on \<open>S\<close>, the comparator \<open>cmp\<close> orders by \<open>key\<close>, largest first.
\<close>

definition desc_by :: "('a \<Rightarrow> 'k::linorder) \<Rightarrow> ('a \<Rightarrow> 'a \<Rightarrow> int option) \<Rightarrow> 'a set \<Rightarrow> bool" where
  "desc_by key cmp S \<longleftrightarrow> (\<forall>x\<in>S. \<forall>y\<in>S. (sortCompare cmp x y \<le> 0) = (key y \<le> key x))"

text \<open>The number of pages for \<open>n\<close> articles, as a natural number.\<close>

definition pageCount :: "nat \<Rightarrow> nat" where
  "pageCount n = nat \<lceil>real n / real (articlesPerPage config)\<rceil>"

text \<open>How often the loads in flight will still fetch the file \<open>f\<close>.\<close>

definition pending :: "string \<Rightarrow> LoadTask list \<Rightarrow> nat" where
  "pending f ts = sum_list (map (\<lambda>t. count_list (remaining t) f) ts)"

section \<open>Lemmas on the sort\<close>

lemma mset_insort_cmp: "mset (insort_cmp cmp x xs) = add_mset x (mset xs)"
  by (induction xs) auto

lemma mset_sort_cmp: "mset (sort_cmp cmp xs) = mset xs"
  unfolding sort_cmp_def by (induction xs) (auto simp: mset_insort_cmp)

lemma set_sort_cmp: "set (sort_cmp cmp xs) = set xs"
  using mset_sort_cmp [of cmp xs] by (metis set_mset_mset)

lemma length_sort_cmp: "length (sort_cmp cmp xs) = length xs"
  using mset_sort_cmp [of cmp xs] by (metis size_mset)

lemma set_insort_cmp: "set (insort_cmp cmp x xs) = insert x (set xs)"
  using mset_insort_cmp [of cmp x xs] by (metis set_mset_add_mset_insert set_mset_mset)

lemma sorted_insort_cmp:
  assumes "desc_by key cmp S" "x \<in> S" "set ys \<subseteq> S"
    and "sorted_wrt (\<lambda>a b. key b \<le> key a) ys"
  shows "sorted_wrt (\<lambda>a b. key b \<le> key a) (insort_cmp cmp x ys)"
  using assms(3,4)
proof (induction ys)
  case Nil
  then show ?case by simp
next
  case (Cons y ys)
  show ?case
  proof (cases "sortCompare cmp x y \<le> 0")
    case True
    with assms(1,2) Cons.prems have "key y \<le> key x" by (simp add: desc_by_def)
    moreover from Cons.prems have "\<forall>z\<in>set ys. key z \<le> key y" by simp
    ultimately show ?thesis using True Cons.prems by auto
  next
    case False
    with assms(1,2) Cons.prems have "key x \<le> key y" by (auto simp: desc_by_def)
    then show ?thesis using False Cons by (auto simp: set_insort_cmp)
  qed
qed

lemma sorted_sort_cmp:
  assumes "desc_by key cmp S" "set xs \<subseteq> S"
  shows "sorted_wrt (\<lambda>a b. key b \<le> key a) (sort_cmp cmp xs)"
  using assms(2)
proof (induction xs)
  case Nil
  then show ?case by (simp add: sort_cmp_def)
next
  case (Cons x xs)
  then have "sorted_wrt (\<lambda>a b. key b \<le> key a) (sort_cmp cmp xs)" by simp
  moreover have "set (sort_cmp cmp xs) \<subseteq> S" using Cons.prems by (simp add: set_sort_cmp)
  ultimately have "sorted_wrt (\<lambda>a b. key b \<le> key a) (insort_cmp cmp x (sort_cmp cmp xs))"
    using sorted_insort_cmp [OF assms(1)] Cons.prems by simp
  then show ?case by (simp add: sort_cmp_def)
qed

lemma filter_insort_cmp:
  assumes "desc_by key cmp S" "x \<in> S" "set ys \<subseteq> S"
  shows "filter (\<lambda>a. key a = k) (insort_cmp cmp x ys) =
         (if key x = k then x # filter (\<lambda>a. key a = k) ys else filter (\<lambda>a. key a = k) ys)"
  using assms(3)
proof (induction ys)
  case Nil
  then show ?case by simp
next
  case (Cons y ys)
  show ?case
  proof (cases "sortCompare cmp x y \<le> 0")
    case True
    then show ?thesis by simp
  next
    case False
    with assms(1,2) Cons.prems have "\<not> key y \<le> key x" by (simp add: desc_by_def)
    then have "key y \<noteq> key x" by auto
    then show ?thesis using False Cons by auto
  qed
qed

lemma filter_sort_cmp:
  assumes "desc_by key cmp S" "set xs \<subseteq> S"
  shows "filter (\<lambda>a. key a = k) (sort_cmp cmp xs) = filter (\<lambda>a. key a = k) xs"
  using assms(2)
proof (induction xs)
  case Nil
  then show ?case by (simp add: sort_cmp_def)
next
  case (Cons x xs)
  have "set (sort_cmp cmp xs) \<subseteq> S" using Cons.prems by (simp add: set_sort_cmp)
  then have "filter (\<lambda>a. key a = k) (insort_cmp cmp x (sort_cmp cmp xs)) =
         (if key x = k then x # filter (\<lambda>a. key a = k) (sort_cmp cmp xs)
          else filter (\<lambda>a. key a = k) (sort_cmp cmp xs))"
    using filter_insort_cmp [OF assms(1)] Cons.prems by simp
  then show ?case using Cons by (simp add: sort_cmp_def)
qed

section \<open>Lemmas on loading\<close>

lemma demo_loaded:
  "loadedArticles demoExt getArticleFiles = [demo_apache, demo_linux, demo_ai, demo_docker]"
  by code_simp

lemma demo_index:
  "articles (loadArticles demoExt emptyService) = [demo_linux, demo_ai, demo_docker, demo_apache]"
  by code_simp





lemma filename_loadedArticles:
  "map filename (loadedArticles E names) = filter (\<lambda>n. loadSingleArticle E n \<noteq> None) names"
proof (induction names)
  case Nil
  then show ?case by simp
next
  case (Cons n names)
  show ?case
  proof (cases "loadSingleArticle E n")
    case None
    then show ?thesis using Cons by simp
  next
    case (Some a)
    then have "filename a = n"
      by (auto simp: loadSingleArticle_def Let_def split: option.splits if_splits)
    then show ?thesis using Some Cons by simp
  qed
qed

lemma loadSingleArticle_Some:
  assumes "loadSingleArticle E n = Some a"
  shows "filename a = n \<and>
         (\<exists>raw d body. fetchText E n = Some raw \<and> matter E raw = Some (d, body) \<and>
            truthy (fm_title d) \<and> truthy (fm_date d) \<and> truthy (fm_author d) \<and>
            slug (metadata a) =
              (if truthy (fm_slug d) then the (fm_slug d) else generateSlug E (the (fm_title d))))"
proof -
  from assms obtain raw where t: "fetchText E n = Some raw"
    by (auto simp: loadSingleArticle_def split: option.splits)
  from assms t obtain d body where m: "matter E raw = Some (d, body)"
    by (auto simp: loadSingleArticle_def split: option.splits)
  from assms t m have v: "truthy (fm_title d) \<and> truthy (fm_date d) \<and> truthy (fm_author d)"
    by (auto simp: loadSingleArticle_def split: if_splits)
  have o: "or_else v x = (if truthy v then the v else x)" for v x
    by (cases v) (auto simp: or_else_def truthy_def)
  from assms t m v have "filename a = n"
    and "slug (metadata a) = or_else (fm_slug d) (generateSlug E (the (fm_title d)))"
    by (auto simp: loadSingleArticle_def Let_def)
  then show ?thesis using t m v o by auto
qed


section \<open>Lemmas on the tag counts\<close>

lemma map_fst_map_set:
  "map fst (map_set m k v) = (if k \<in> fst ` set m then map fst m else map fst m @ [k])"
  by (induction m) (auto split: if_splits)

lemma map_of_map_set: "map_of (map_set m k v) = (map_of m)(k \<mapsto> v)"
  by (induction m) (auto simp: fun_eq_iff)

lemma keys_countTag:
  "map fst (countTag m t) = (if t \<in> fst ` set m then map fst m else map fst m @ [t])"
  by (simp add: countTag_def map_fst_map_set)

lemma map_of_countTag:
  "map_of (countTag m t) = (map_of m)(t \<mapsto> (case map_of m t of None \<Rightarrow> 0 | Some n \<Rightarrow> n) + 1)"
  by (simp add: countTag_def map_get_def map_of_map_set)

lemma foldl_countTag_keys:
  "map fst (foldl countTag [] ts) = firstEncountered ts"
proof (induction ts rule: rev_induct)
  case Nil
  then show ?case by (simp add: firstEncountered_def)
next
  case (snoc t ts)
  have "set (firstEncountered ts) = set ts" by (simp add: firstEncountered_def)
  with snoc have k: "fst ` set (foldl countTag [] ts) = set ts"
    by (metis set_map)
  show ?case
    using snoc by (simp add: keys_countTag k firstEncountered_def)
qed

lemma foldl_countTag_count:
  "map_of (foldl countTag [] ts) t = (if t \<in> set ts then Some (count_list ts t) else None)"
proof (induction ts arbitrary: t rule: rev_induct)
  case Nil
  then show ?case by simp
next
  case (snoc x ts)
  then show ?case
    by (simp add: map_of_countTag)
qed

lemma foldl_foldl_concat:
  "foldl (\<lambda>m a. foldl f m (g a)) m xs = foldl f m (concat (map g xs))"
  by (induction xs arbitrary: m) simp_all

lemma tagCounts_flat: "tagCounts as = foldl countTag [] (tagsInOrder as)"
  by (simp add: tagCounts_def tagsInOrder_def foldl_foldl_concat)

lemma tagCounts_keys: "map fst (tagCounts as) = firstEncountered (tagsInOrder as)"
  by (simp add: tagCounts_flat foldl_countTag_keys)

lemma distinct_firstEncountered: "distinct (firstEncountered ts)"
  by (simp add: firstEncountered_def)

lemma tagCounts_entry:
  assumes "(t, c) \<in> set (tagCounts as)"
  shows "c = occurrences as t"
proof -
  have "distinct (map fst (tagCounts as))"
    by (simp add: tagCounts_keys distinct_firstEncountered)
  with assms have "map_of (tagCounts as) t = Some c" by simp
  then show ?thesis
    by (simp add: tagCounts_flat foldl_countTag_count occurrences_def split: if_splits)
qed

lemma tagCounts_eq:
  "tagCounts as = map (\<lambda>t. (t, occurrences as t)) (firstEncountered (tagsInOrder as))"
proof -
  have "tagCounts as = map (\<lambda>p. (fst p, snd p)) (tagCounts as)" by simp
  also have "\<dots> = map (\<lambda>p. (fst p, occurrences as (fst p))) (tagCounts as)"
    by (rule map_cong) (auto dest: tagCounts_entry simp: prod_eq_iff)
  also have "\<dots> = map (\<lambda>t. (t, occurrences as t)) (map fst (tagCounts as))"
    by (simp add: comp_def)
  finally show ?thesis by (simp add: tagCounts_keys)
qed

lemma desc_by_count:
  "desc_by TagCount.count (\<lambda>a b. Some (int (TagCount.count b) - int (TagCount.count a))) UNIV"
  by (simp add: desc_by_def sortCompare_def)

lemma getAllTags_eq:
  "fst (getAllTags E s) =
     sort_cmp (\<lambda>a b. Some (int (TagCount.count b) - int (TagCount.count a)))
       (map (\<lambda>t. \<lparr>TagCount.tag = t, count = occurrences (fst (getArticles E s)) t\<rparr>)
          (firstEncountered (tagsInOrder (fst (getArticles E s)))))"
  by (simp add: getAllTags_def tagCounts_eq comp_def split: prod.splits)

section \<open>Lemmas on the excerpt\<close>

lemma m_ws_Cons:
  "m_ws (c # cs) = (if is_space c then Some ('' '', dropWhile is_space cs) else None)"
  by (simp add: m_ws_def)

lemma replace_all_ws_normal:
  "\<forall>c \<in> set (replace_all m_ws s). is_space c \<longrightarrow> c = CHR '' ''"
proof (induction "length s" arbitrary: s rule: less_induct)
  case less
  show ?case
  proof (cases s)
    case Nil
    then show ?thesis by simp
  next
    case (Cons c cs)
    show ?thesis
    proof (cases "is_space c")
      case True
      have l: "length (dropWhile is_space cs) < length s"
        using Cons length_dropWhile_le [of is_space cs] by simp
      then have "\<forall>x \<in> set (replace_all m_ws (dropWhile is_space cs)). is_space x \<longrightarrow> x = CHR '' ''"
        by (rule less)
      then show ?thesis using True Cons l by (simp add: m_ws_Cons)
    next
      case False
      have "\<forall>x \<in> set (replace_all m_ws cs). is_space x \<longrightarrow> x = CHR '' ''"
        by (rule less) (simp add: Cons)
      then show ?thesis using False Cons by (simp add: m_ws_Cons)
    qed
  qed
qed

lemma set_trim: "set (trim s) \<subseteq> set s"
proof -
  have "set (trim s) = set (dropWhile is_space (rev (dropWhile is_space s)))"
    by (simp add: trim_def)
  also have "\<dots> \<subseteq> set (rev (dropWhile is_space s))"
    by (auto dest: set_dropWhileD)
  also have "\<dots> \<subseteq> set s"
    by (auto dest: set_dropWhileD)
  finally show ?thesis .
qed

lemma plainText_ws_normal:
  assumes "c \<in> set (plainText body)" "is_space c"
  shows "c = CHR '' ''"
proof -
  from assms(1) have "c \<in> set (replace_all m_ws (replace_all m_blank (replace_all m_link
       (replace_all m_fence (replace_all m_code (replace_all m_italic (replace_all m_bold
         (replace_all m_header body))))))))"
    unfolding plainText_def using set_trim by blast
  with assms(2) show ?thesis using replace_all_ws_normal by blast
qed

lemma length_takeWhile_less:
  assumes "x \<in> set xs" "\<not> P x"
  shows "length (takeWhile P xs) < length xs"
proof -
  have "takeWhile P xs \<noteq> xs" using assms by (auto simp: takeWhile_eq_all_conv)
  moreover have "length (takeWhile P xs) \<le> length xs" by (rule length_takeWhile_le)
  moreover have "length (takeWhile P xs) = length xs \<Longrightarrow> takeWhile P xs = xs"
    by (metis takeWhile_dropWhile_id length_0_conv length_append add_diff_cancel_left'
        append_Nil2 diff_self_eq_0)
  ultimately show ?thesis by (cases "length (takeWhile P xs) = length xs") auto
qed

lemma lastIndexOf_space:
  assumes "\<forall>c \<in> set t. is_space c \<longrightarrow> c = CHR '' ''"
  shows "lastIndexOf t CHR '' '' = (case lastWhitespace t of None \<Rightarrow> - 1 | Some i \<Rightarrow> int i)"
proof -
  have sp: "is_space CHR '' ''" by (simp add: is_space_def)
  have ex: "list_ex is_space t = (CHR '' '' \<in> set t)"
    using assms sp by (auto simp: list_ex_iff)
  have tw: "takeWhile (\<lambda>c. \<not> is_space c) (rev t) = takeWhile (\<lambda>x. x \<noteq> CHR '' '') (rev t)"
    by (rule takeWhile_cong) (use assms sp in auto)
  show ?thesis
  proof (cases "CHR '' '' \<in> set t")
    case True
    then have "length (takeWhile (\<lambda>x. x \<noteq> CHR '' '') (rev t)) < length (rev t)"
      by (intro length_takeWhile_less [where x = "CHR '' ''"]) auto
    then show ?thesis using True ex tw
      by (simp add: lastIndexOf_def lastWhitespace_def)
  next
    case False
    then show ?thesis using ex by (simp add: lastIndexOf_def lastWhitespace_def)
  qed
qed

section \<open>Lemmas on the replacements\<close>

text \<open>
  Every matcher leaves less input than it was given, so the length test in
  \<open>replace_all\<close> never fails and \<open>replace_all\<close> goes on behind each match.
\<close>

lemma m_header_shorter:
  assumes "m_header s = Some (out, rest)"
  shows "length rest < length s"
proof -
  let ?k = "length (takeWhile (\<lambda>x. x = CHR ''#'') s)"
  from assms have k: "1 \<le> ?k" and r: "rest = dropWhile is_space (drop (min 6 ?k) s)"
    by (auto simp: m_header_def Let_def split: if_splits)
  from k have "s \<noteq> []" by auto
  moreover have "length rest \<le> length (drop (min 6 ?k) s)"
    unfolding r by (rule length_dropWhile_le)
  ultimately show ?thesis using k by (cases s) auto
qed

lemma find_close_shorter:
  assumes "find_close cl ok s = Some (g, rest)" "cl \<noteq> []"
  shows "length rest < length s"
  using assms
proof (induction s arbitrary: g)
  case Nil
  then show ?case by simp
next
  case (Cons c cs)
  show ?case
  proof (cases "prefix cl (c # cs)")
    case True
    with Cons.prems show ?thesis by (cases cl) auto
  next
    case False
    with Cons.prems obtain g' where "find_close cl ok cs = Some (g', rest)"
      by (auto split: if_splits option.splits)
    with Cons.IH Cons.prems(2) have "length rest < length cs" by blast
    then show ?thesis by simp
  qed
qed

lemma m_delim_shorter:
  assumes "m_delim d ok keep s = Some (out, rest)" "d \<noteq> []"
  shows "length rest < length s"
proof -
  from assms(1) obtain g where "find_close d ok (drop (length d) s) = Some (g, rest)"
    by (auto simp: m_delim_def split: if_splits option.splits)
  then have "length rest < length (drop (length d) s)"
    using assms(2) by (rule find_close_shorter)
  then show ?thesis by simp
qed

lemma m_bold_shorter: "m_bold s = Some (out, rest) \<Longrightarrow> length rest < length s"
  using m_delim_shorter [of "''**''" "not_line_terminator" True s out rest]
  by (simp add: m_bold_def)

lemma m_italic_shorter: "m_italic s = Some (out, rest) \<Longrightarrow> length rest < length s"
  using m_delim_shorter [of "''*''" "not_line_terminator" True s out rest]
  by (simp add: m_italic_def)

lemma m_code_shorter: "m_code s = Some (out, rest) \<Longrightarrow> length rest < length s"
  using m_delim_shorter [of "''`''" "not_line_terminator" True s out rest]
  by (simp add: m_code_def)

lemma m_fence_shorter: "m_fence s = Some (out, rest) \<Longrightarrow> length rest < length s"
  using m_delim_shorter [of "''```''" "(\<lambda>c. True)" False s out rest]
  by (simp add: m_fence_def)

lemma m_link_shorter:
  assumes "m_link s = Some (out, rest)"
  shows "length rest < length s"
proof (cases s)
  case Nil
  with assms show ?thesis by (simp add: m_link_def)
next
  case (Cons c r1)
  with assms show ?thesis
    by (auto simp: m_link_def Let_def split: if_splits)
qed

lemma m_blank_shorter:
  assumes "m_blank s = Some (out, rest)"
  shows "length rest < length s"
proof (cases s)
  case Nil
  with assms show ?thesis by (simp add: m_blank_def)
next
  case (Cons c r)
  let ?ws = "takeWhile is_space r"
  from assms Cons have r: "rest = rev (takeWhile (\<lambda>x. x \<noteq> CHR 0x0A) (rev ?ws)) @ dropWhile is_space r"
    by (auto simp: m_blank_def Let_def split: if_splits)
  have "length (takeWhile (\<lambda>x. x \<noteq> CHR 0x0A) (rev ?ws)) \<le> length (rev ?ws)"
    by (rule length_takeWhile_le)
  moreover have "length ?ws + length (dropWhile is_space r) = length r"
    by (metis length_append takeWhile_dropWhile_id)
  ultimately have "length rest \<le> length r"
    unfolding r by simp
  then show ?thesis using Cons by simp
qed

lemma m_ws_shorter:
  assumes "m_ws s = Some (out, rest)"
  shows "length rest < length s"
proof (cases s)
  case Nil
  with assms show ?thesis by (simp add: m_ws_def)
next
  case (Cons c r)
  with assms have "rest = dropWhile is_space r"
    by (auto simp: m_ws_def split: if_splits)
  then show ?thesis using Cons length_dropWhile_le [of is_space r] by simp
qed

lemma replace_all_Cons:
  assumes "\<And>out rest. m (c # cs) = Some (out, rest) \<Longrightarrow> length rest < length (c # cs)"
  shows "replace_all m (c # cs) =
           (case m (c # cs) of
              None \<Rightarrow> c # replace_all m cs
            | Some (out, rest) \<Rightarrow> out @ replace_all m rest)"
  using assms by (auto split: option.splits)

section \<open>Lemmas on the search\<close>

lemma slice_page:
  assumes "0 \<le> a" "0 \<le> n"
  shows "slice xs a (a + n) = take (nat n) (drop (nat a) xs)"
proof (cases "a \<le> int (length xs)")
  case True
  have "take (nat (min (a + n) (int (length xs)) - a)) (drop (nat a) xs) =
        take (nat n) (drop (nat a) xs)"
  proof (cases "a + n \<le> int (length xs)")
    case True
    then show ?thesis by (simp add: min_def)
  next
    case False
    then have "length (drop (nat a) xs) \<le> nat (int (length xs) - a)"
      and "length (drop (nat a) xs) \<le> nat n"
      using assms by auto
    then show ?thesis using False by (simp add: min_def)
  qed
  then show ?thesis using True assms by (simp add: slice_def Let_def min_def)
next
  case False
  then show ?thesis using assms by (simp add: slice_def Let_def min_def)
qed

lemma pages_concat:
  "concat (map (\<lambda>i. take k (drop (i * k) xs)) [0..<m]) = take (m * k) xs"
proof (induction m)
  case 0
  then show ?case by simp
next
  case (Suc m)
  have "take (m * k + k) xs = take (m * k) xs @ take k (drop (m * k) xs)"
    by (rule take_add)
  then show ?case using Suc by (simp add: add.commute)
qed

lemma pages_shift:
  "map (\<lambda>p. f (p - 1)) [1..<Suc m] = map f [0..<m]"
proof -
  have "[1..<Suc m] = map Suc [0..<m]" by (simp add: map_Suc_upt)
  then show ?thesis by (simp add: comp_def)
qed

lemma ceiling_pages:
  assumes "0 < k"
  shows "n \<le> nat \<lceil>real n / real k\<rceil> * k"
proof -
  have "real n = (real n / real k) * real k" using assms by simp
  also have "\<dots> \<le> real_of_int \<lceil>real n / real k\<rceil> * real k"
    by (rule mult_right_mono) simp_all
  finally have "real n \<le> real_of_int \<lceil>real n / real k\<rceil> * real k" .
  moreover have "\<lceil>0::real\<rceil> \<le> \<lceil>real n / real k\<rceil>"
    by (rule ceiling_mono) simp
  then have "0 \<le> \<lceil>real n / real k\<rceil>" by simp
  ultimately have "real n \<le> real (nat \<lceil>real n / real k\<rceil> * k)" by simp
  then show ?thesis by linarith
qed

lemma searchCompare_page [simp]:
  "searchCompare E (params\<lparr>page := x\<rparr>) = searchCompare E params"
  by (intro ext) (simp add: searchCompare_def)

lemma applyFilters_page [simp]:
  "applyFilters (params\<lparr>page := x\<rparr>) = applyFilters params"
  by (intro ext) (simp add: applyFilters_def)

lemma filteredSorted_page [simp]:
  "filteredSorted E (params\<lparr>page := x\<rparr>) = filteredSorted E params"
  by (intro ext) (simp add: filteredSorted_def)

lemma perPage: "articlesPerPage config = 10"
  by (simp add: config_def)

lemma searchArticles_fields:
  "ArticleSearchResult.articles (fst (searchArticles E s params)) =
     slice (filteredSorted E params (fst (getArticlesList E s)))
       ((pageOf params - 1) * 10) ((pageOf params - 1) * 10 + 10)"
  "totalCount (fst (searchArticles E s params)) =
     length (filteredSorted E params (fst (getArticlesList E s)))"
  "currentPage (fst (searchArticles E s params)) = pageOf params"
  "totalPages (fst (searchArticles E s params)) =
     \<lceil>real (length (filteredSorted E params (fst (getArticlesList E s)))) / real (articlesPerPage config)\<rceil>"
  "hasNextPage (fst (searchArticles E s params)) =
     (pageOf params < totalPages (fst (searchArticles E s params)))"
  "hasPreviousPage (fst (searchArticles E s params)) = (pageOf params > 1)"
  "snd (searchArticles E s params) = snd (getArticlesList E s)"
  by (simp_all add: searchArticles_def Let_def perPage split: prod.splits)

lemma length_filteredSorted:
  "length (filteredSorted E params as) = length (applyFilters params as)"
  by (simp add: filteredSorted_def length_sort_cmp)

lemma page_articles:
  assumes "1 \<le> p"
  shows "ArticleSearchResult.articles (fst (searchArticles E s (params\<lparr>page := Some (int p)\<rparr>))) =
         take 10 (drop ((p - 1) * 10) (filteredSorted E params (fst (getArticlesList E s))))"
proof -
  have pg: "pageOf (params\<lparr>page := Some (int p)\<rparr>) = int p"
    using assms by (simp add: pageOf_def)
  have "slice xs ((int p - 1) * 10) ((int p - 1) * 10 + 10) = take (nat 10) (drop (nat ((int p - 1) * 10)) xs)"
    for xs :: "ArticleListItem list"
    using assms by (intro slice_page) simp_all
  moreover have "nat ((int p - 1) * 10) = (p - 1) * 10"
    using assms by (simp add: nat_mult_distrib nat_diff_distrib')
  ultimately show ?thesis by (simp add: searchArticles_fields pg)
qed

lemma pageCount_covers: "n \<le> pageCount n * 10"
  using ceiling_pages [of 10 n] by (simp add: pageCount_def perPage)

lemma totalPages_pageCount:
  "totalPages (fst (searchArticles E s params)) =
     int (pageCount (length (filteredSorted E params (fst (getArticlesList E s)))))"
proof -
  have "\<lceil>0::real\<rceil> \<le> \<lceil>real n / real (articlesPerPage config)\<rceil>" for n :: nat
    by (rule ceiling_mono) simp
  then show ?thesis by (simp add: searchArticles_fields pageCount_def)
qed

lemma allPages_eq:
  "allPages E s params = filteredSorted E params (fst (getArticlesList E s))"
proof -
  let ?xs = "filteredSorted E params (fst (getArticlesList E s))"
  define m where "m = pageCount (length ?xs)"
  have tp: "nat (totalPages (fst (searchArticles E s params))) = m"
    by (simp add: totalPages_pageCount m_def)
  have pw: "ArticleSearchResult.articles
              (fst (searchArticles E s (params\<lparr>page := Some (int p)\<rparr>))) =
            take 10 (drop ((p - 1) * 10) ?xs)" if "p \<in> set [1..<Suc m]" for p
  proof -
    from that have "1 \<le> p" by auto
    then show ?thesis by (rule page_articles)
  qed
  have "map (\<lambda>p. ArticleSearchResult.articles
                   (fst (searchArticles E s (params\<lparr>page := Some (int p)\<rparr>)))) [1..<Suc m] =
        map (\<lambda>p. take 10 (drop ((p - 1) * 10) ?xs)) [1..<Suc m]"
    using pw by (rule map_cong [OF refl])
  also have "\<dots> = map (\<lambda>i. take 10 (drop (i * 10) ?xs)) [0..<m]"
    by (rule pages_shift)
  finally have "allPages E s params = concat (map (\<lambda>i. take 10 (drop (i * 10) ?xs)) [0..<m])"
    unfolding allPages_def tp by simp
  also have "\<dots> = take (m * 10) ?xs" by (rule pages_concat)
  also have "\<dots> = ?xs" using pageCount_covers [of "length ?xs"] by (simp add: m_def)
  finally show ?thesis .
qed

lemma demo_getArticles:
  "getArticles demoExt emptyService =
     ([demo_linux, demo_ai, demo_docker, demo_apache],
      \<lparr>articles = [demo_linux, demo_ai, demo_docker, demo_apache]\<rparr>)"
proof -
  have "loadArticles demoExt emptyService = \<lparr>articles = [demo_linux, demo_ai, demo_docker, demo_apache]\<rparr>"
    using demo_index by (simp add: loadArticles_def emptyService_def)
  then show ?thesis by (simp add: getArticles_def Let_def emptyService_def)
qed

lemma demo_applyFilters: "applyFilters demoParams (fst (getArticlesList demoExt emptyService)) =
  fst (getArticlesList demoExt emptyService)"
  by (simp add: applyFilters_def demoParams_def truthy_def)

lemma demo_list_length: "length (fst (getArticlesList demoExt emptyService)) = 4"
  by (simp add: getArticlesList_def demo_getArticles)

lemma js_includes_sublist: "js_includes s q = sublist q s"
  by (induction s) (simp_all add: sublist_Cons_right)

lemma matchesQuery_spec: "matchesQuery (toLowerCase q) = queryMatches q"
  by (intro ext)
    (simp add: matchesQuery_def queryMatches_def ciSubstring_def js_includes_sublist list_ex_iff)

lemma searchCompare_query [simp]:
  "searchCompare E (params\<lparr>query := x\<rparr>) = searchCompare E params"
  by (intro ext) (simp add: searchCompare_def)

lemma pageOf_query [simp]: "pageOf (params\<lparr>query := x\<rparr>) = pageOf params"
  by (simp add: pageOf_def)

lemma applyFilters_no_query:
  assumes "\<not> truthy (query params)"
  shows "applyFilters (params\<lparr>query := None\<rparr>) = applyFilters params"
  using assms by (intro ext) (simp add: applyFilters_def truthy_def)

lemma searchArticles_no_query:
  assumes "\<not> truthy (query params)"
  shows "searchArticles E s (params\<lparr>query := None\<rparr>) = searchArticles E s params"
  by (simp add: searchArticles_def filteredSorted_def applyFilters_no_query [OF assms])

lemma applyFilters_query:
  assumes "query params = Some q" "q \<noteq> []"
  shows "applyFilters params as =
         filter (\<lambda>a. queryMatches q a \<and>
                   (truthy (tag params) \<longrightarrow> the (tag params) \<in> set (tags (metadata a)))) as"
proof -
  have "truthy (query params)" using assms by (simp add: truthy_def)
  then show ?thesis
    using assms(1)
    by (cases "truthy (tag params)") (simp_all add: applyFilters_def matchesQuery_spec conj_commute)
qed

section \<open>Lemmas on loads in flight\<close>

text \<open>
  A resumed load moves one file from what it will fetch to what has been fetched, so
  the fetches made and the fetches pending add up to the same number before and after.
  The lemma \<open>awaited_getArticles\<close> ties the two models together: a call of
  \<open>getArticles\<close> on an empty index, with its load run to completion and nothing else
  in between, leaves the service that the sequential \<open>getArticles\<close> returns.
\<close>

lemma pending_append: "pending f (ts @ us) = pending f ts + pending f us"
  by (simp add: pending_def)

lemma pending_nth:
  assumes "i < length ts"
  shows "pending f ts =
         pending f (take i ts) + count_list (remaining (ts ! i)) f + pending f (drop (Suc i) ts)"
proof -
  have "ts = take i ts @ ts ! i # drop (Suc i) ts"
    using assms by (rule id_take_nth_drop)
  then have "pending f ts = pending f (take i ts @ ts ! i # drop (Suc i) ts)" by simp
  then show ?thesis by (simp add: pending_def)
qed

lemma pending_update:
  assumes "i < length ts"
  shows "pending f (ts[i := t]) =
         pending f (take i ts) + count_list (remaining t) f + pending f (drop (Suc i) ts)"
proof -
  have "ts[i := t] = take i ts @ t # drop (Suc i) ts"
    using assms by (rule upd_conv_take_nth_drop)
  then show ?thesis by (simp add: pending_def)
qed

lemma resume_invariant:
  "count_list (retrievals (resume E i w)) f + pending f (inFlight (resume E i w)) =
   count_list (retrievals w) f + pending f (inFlight w)"
proof (cases "i < length (inFlight w)")
  case False
  then show ?thesis by (simp add: resume_def)
next
  case True
  show ?thesis
  proof (cases "remaining (inFlight w ! i)")
    case Nil
    then show ?thesis
      using True pending_nth [OF True, of f]
      by (simp add: resume_def Let_def pending_append)
  next
    case (Cons g gs)
    then show ?thesis
      using True pending_nth [OF True, of f] pending_update [OF True, of f]
      by (simp add: resume_def Let_def)
  qed
qed

lemma run_resume_invariant:
  "count_list (retrievals (run E (map Resume sched) w)) f +
     pending f (inFlight (run E (map Resume sched) w)) =
   count_list (retrievals w) f + pending f (inFlight w)"
proof (induction sched arbitrary: w)
  case Nil
  then show ?case by (simp add: run_def)
next
  case (Cons i sched)
  have "run E (map Resume (i # sched)) w = run E (map Resume sched) (resume E i w)"
    by (simp add: run_def)
  then show ?case using Cons [of "resume E i w"] by (simp add: resume_invariant)
qed

lemma run_append: "run E (xs @ ys) w = run E ys (run E xs w)"
  by (simp add: run_def)

lemma run_calls:
  assumes "articles (service w) = []"
  shows "run E (replicate n GetArticles) w =
         w\<lparr>inFlight := inFlight w @ replicate n \<lparr>remaining = getArticleFiles, loadedSoFar = []\<rparr>\<rparr>"
  using assms
proof (induction n arbitrary: w)
  case 0
  then show ?case by (simp add: run_def)
next
  case (Suc n)
  have "run E (replicate (Suc n) GetArticles) w = run E (replicate n GetArticles) (startLoad w)"
    using Suc.prems by (simp add: run_def)
  moreover have "articles (service (startLoad w)) = []"
    using Suc.prems by (simp add: startLoad_def)
  ultimately show ?case
    using Suc.IH [of "startLoad w"] by (simp add: startLoad_def replicate_app_Cons_same)
qed

lemma pending_replicate:
  "pending f (replicate n \<lparr>remaining = fs, loadedSoFar = []\<rparr>) = n * count_list fs f"
  by (induction n) (simp_all add: pending_def)

lemma count_getArticleFiles:
  "f \<in> set getArticleFiles \<Longrightarrow> count_list getArticleFiles f = 1"
  by (auto simp: getArticleFiles_def)

lemma loadedArticles_Cons:
  "(case loadSingleArticle E f of None \<Rightarrow> [] | Some a \<Rightarrow> [a]) @ loadedArticles E fs =
   loadedArticles E (f # fs)"
  by (simp split: option.splits)

lemma resume_to_completion:
  "run E (replicate (Suc (length fs)) (Resume 0))
     \<lparr>service = s, inFlight = [\<lparr>remaining = fs, loadedSoFar = acc\<rparr>], retrievals = r\<rparr> =
   \<lparr>service = s\<lparr>articles := sort_cmp (cmp_newest_first E) (acc @ loadedArticles E fs)\<rparr>,
    inFlight = [], retrievals = r @ fs\<rparr>"
proof (induction fs arbitrary: acc r)
  case Nil
  then show ?case by (simp add: run_def resume_def)
next
  case (Cons f fs)
  have "run E (replicate (Suc (length (f # fs))) (Resume 0))
          \<lparr>service = s, inFlight = [\<lparr>remaining = f # fs, loadedSoFar = acc\<rparr>], retrievals = r\<rparr> =
        run E (replicate (Suc (length fs)) (Resume 0))
          \<lparr>service = s,
           inFlight = [\<lparr>remaining = fs,
                        loadedSoFar = acc @ (case loadSingleArticle E f of None \<Rightarrow> [] | Some a \<Rightarrow> [a])\<rparr>],
           retrievals = r @ [f]\<rparr>"
    by (simp add: run_def resume_def)
  then show ?case
    by (simp only: Cons.IH append_assoc loadedArticles_Cons) simp
qed

lemma awaited_getArticles:
  assumes "articles s = []"
  shows "service (run E (GetArticles # replicate (Suc (length getArticleFiles)) (Resume 0))
           \<lparr>service = s, inFlight = [], retrievals = []\<rparr>) = snd (getArticles E s)"
proof -
  have "run E (GetArticles # replicate (Suc (length getArticleFiles)) (Resume 0))
           \<lparr>service = s, inFlight = [], retrievals = []\<rparr> =
        run E (replicate (Suc (length getArticleFiles)) (Resume 0))
           \<lparr>service = s, inFlight = [\<lparr>remaining = getArticleFiles, loadedSoFar = []\<rparr>],
            retrievals = []\<rparr>"
    using assms by (simp add: run_def startLoad_def)
  then show ?thesis
    using assms by (simp only: resume_to_completion) (simp add: getArticles_def loadArticles_def)
qed

section \<open>The index after a load\<close>



section \<open>Search and pagination\<close>

text \<open>
  C2. For a fixed service and fixed filter and sort settings, the pages 1 to
  \<open>totalPages\<close> returned by \<open>searchArticles\<close>, one after the other, are the
  filtered and sorted list itself, so they hold the filtered articles with none
  repeated and none left out.
\<close>

theorem C2_pages_cover_the_filtered_sorted_list:
  "allPages E s params = filteredSorted E params (fst (getArticlesList E s)) \<and>
   mset (allPages E s params) = mset (applyFilters params (fst (getArticlesList E s)))"
  by (simp add: allPages_eq filteredSorted_def mset_sort_cmp)

text \<open>
  C3. For a page number \<open>p\<close> of at least 1 the result of \<open>searchArticles\<close> has:
  \<open>totalCount\<close> the size of the filtered list before pagination; \<open>totalPages\<close>
  the ceiling of \<open>totalCount / articlesPerPage\<close>, which is 0 when \<open>totalCount\<close> is
  0; \<open>hasNextPage\<close> true exactly when \<open>p < totalPages\<close>; \<open>hasPreviousPage\<close>
  true exactly when \<open>p > 1\<close>; and for \<open>p\<close> beyond \<open>totalPages\<close> an empty page of
  articles with the same fields. The function is total, so no page number is an error.
\<close>

theorem C3_pagination_fields:
  assumes "1 \<le> p"
  shows "totalCount (fst (searchArticles E s (params\<lparr>page := Some p\<rparr>))) =
           length (applyFilters params (fst (getArticlesList E s))) \<and>
         totalPages (fst (searchArticles E s (params\<lparr>page := Some p\<rparr>))) =
           \<lceil>real (totalCount (fst (searchArticles E s (params\<lparr>page := Some p\<rparr>)))) /
              real (articlesPerPage config)\<rceil> \<and>
         (totalCount (fst (searchArticles E s (params\<lparr>page := Some p\<rparr>))) = 0 \<longrightarrow>
            totalPages (fst (searchArticles E s (params\<lparr>page := Some p\<rparr>))) = 0) \<and>
         currentPage (fst (searchArticles E s (params\<lparr>page := Some p\<rparr>))) = p \<and>
         hasNextPage (fst (searchArticles E s (params\<lparr>page := Some p\<rparr>))) =
           (p < totalPages (fst (searchArticles E s (params\<lparr>page := Some p\<rparr>)))) \<and>
         hasPreviousPage (fst (searchArticles E s (params\<lparr>page := Some p\<rparr>))) = (1 < p) \<and>
         (totalPages (fst (searchArticles E s (params\<lparr>page := Some p\<rparr>))) < p \<longrightarrow>
            ArticleSearchResult.articles (fst (searchArticles E s (params\<lparr>page := Some p\<rparr>))) = [])"
proof -
  let ?r = "fst (searchArticles E s (params\<lparr>page := Some p\<rparr>))"
  let ?xs = "filteredSorted E params (fst (getArticlesList E s))"
  have pg: "pageOf (params\<lparr>page := Some p\<rparr>) = p"
    using assms by (simp add: pageOf_def)
  have tc: "totalCount ?r = length (applyFilters params (fst (getArticlesList E s)))"
    by (simp add: searchArticles_fields length_filteredSorted)
  have tp: "totalPages ?r = \<lceil>real (totalCount ?r) / real (articlesPerPage config)\<rceil>"
    by (simp add: searchArticles_fields)
  have z: "totalCount ?r = 0 \<longrightarrow> totalPages ?r = 0"
    by (simp add: tp)
  have cp: "currentPage ?r = p" by (simp add: searchArticles_fields pg)
  have nx: "hasNextPage ?r = (p < totalPages ?r)" by (simp add: searchArticles_fields pg)
  have pv: "hasPreviousPage ?r = (1 < p)" by (simp add: searchArticles_fields pg)
  have em: "ArticleSearchResult.articles ?r = []" if "totalPages ?r < p"
  proof -
    define m where "m = pageCount (length ?xs)"
    have "totalPages ?r = int m"
      by (simp add: totalPages_pageCount m_def)
    with that have "m \<le> nat (p - 1)" by linarith
    then have "m * 10 \<le> nat (p - 1) * 10" by (rule mult_le_mono1)
    moreover have "length ?xs \<le> m * 10"
      unfolding m_def by (rule pageCount_covers)
    ultimately have "length ?xs \<le> nat (p - 1) * 10" by (rule order_trans [rotated])
    moreover have "nat ((p - 1) * 10) = nat (p - 1) * 10"
      using assms by (simp add: nat_mult_distrib)
    moreover have "slice ?xs ((p - 1) * 10) ((p - 1) * 10 + 10) =
                   take (nat 10) (drop (nat ((p - 1) * 10)) ?xs)"
      using assms by (intro slice_page) simp_all
    moreover have "ArticleSearchResult.articles ?r = slice ?xs ((p - 1) * 10) ((p - 1) * 10 + 10)"
      by (simp only: searchArticles_fields(1) pg filteredSorted_page)
    ultimately show ?thesis by simp
  qed
  show ?thesis by (intro conjI impI tc tp cp nx pv em z [rule_format])
qed

text \<open>
  Page 2 of the four sample articles: one page in all, so the page is empty, with no
  next page and with a previous one.
\<close>

theorem C3_witness:
  "(1::int) \<le> 2 \<and>
   totalCount (fst (searchArticles demoExt emptyService (demoParams\<lparr>page := Some 2\<rparr>))) = 4 \<and>
   totalPages (fst (searchArticles demoExt emptyService (demoParams\<lparr>page := Some 2\<rparr>))) = 1 \<and>
   \<not> hasNextPage (fst (searchArticles demoExt emptyService (demoParams\<lparr>page := Some 2\<rparr>))) \<and>
   hasPreviousPage (fst (searchArticles demoExt emptyService (demoParams\<lparr>page := Some 2\<rparr>))) \<and>
   ArticleSearchResult.articles
     (fst (searchArticles demoExt emptyService (demoParams\<lparr>page := Some 2\<rparr>))) = []"
proof -
  have h: "(1::int) \<le> 2" by simp
  note T = C3_pagination_fields [OF h, of demoExt emptyService demoParams]
  have c: "totalCount (fst (searchArticles demoExt emptyService (demoParams\<lparr>page := Some 2\<rparr>))) = 4"
    using T [THEN conjunct1] by (simp only: demo_applyFilters demo_list_length)
  have p: "totalPages (fst (searchArticles demoExt emptyService (demoParams\<lparr>page := Some 2\<rparr>))) = 1"
    using T [THEN conjunct2, THEN conjunct1] by (simp add: c perPage)
  show ?thesis using T c p by simp
qed

text \<open>
  C4, as stated: a query of only whitespace applies no filter. On the sample articles
  the query of one space keeps the three articles that have a space in their title,
  summary, tags or excerpt and drops the fourth; with no query all four are found.
\<close>

theorem C4_counterexample:
  "list_all is_space '' '' \<and>
   totalCount (fst (searchArticles demoExt emptyService (demoParams\<lparr>query := Some '' ''\<rparr>))) = 3 \<and>
   totalCount (fst (searchArticles demoExt emptyService demoParams)) = 4"
proof -
  have a: "list_all is_space '' ''" by (simp add: is_space_def)
  have l: "fst (getArticlesList demoExt emptyService) = map ArticleListItem.truncate
             [demo_linux, demo_ai, demo_docker, demo_apache]"
    by (simp add: getArticlesList_def demo_getArticles ArticleListItem.truncate_def)
  have f: "length (applyFilters (demoParams\<lparr>query := Some '' ''\<rparr>)
             (map ArticleListItem.truncate [demo_linux, demo_ai, demo_docker, demo_apache])) = 3"
    by code_simp
  have "totalCount (fst (searchArticles demoExt emptyService (demoParams\<lparr>query := Some '' ''\<rparr>))) = 3"
    by (simp only: searchArticles_fields(2) length_filteredSorted l f)
  moreover have "totalCount (fst (searchArticles demoExt emptyService demoParams)) = 4"
    by (simp only: searchArticles_fields(2) length_filteredSorted demo_applyFilters demo_list_length)
  ultimately show ?thesis using a by simp
qed

text \<open>
  C4, amended. A query that is absent or the empty string applies no filter: the
  result is the one for the same parameters without a query. Every other query, one of
  only whitespace included, filters: the articles found are those of the list for
  which the query is a case-insensitive substring of the title, the summary, one of
  the tags or the excerpt (and which pass the tag filter, when one is given).
\<close>

theorem C4_query_filter:
  "((query params = None \<or> query params = Some []) \<longrightarrow>
      searchArticles E s params = searchArticles E s (params\<lparr>query := None\<rparr>)) \<and>
   (\<forall>q. query params = Some q \<and> q \<noteq> [] \<longrightarrow>
      set (allPages E s params) =
        {a \<in> set (fst (getArticlesList E s)).
           queryMatches q a \<and>
           (truthy (tag params) \<longrightarrow> the (tag params) \<in> set (tags (metadata a)))} \<and>
      totalCount (fst (searchArticles E s params)) =
        length (filter (\<lambda>a. queryMatches q a \<and>
                  (truthy (tag params) \<longrightarrow> the (tag params) \<in> set (tags (metadata a))))
                 (fst (getArticlesList E s))))"
proof (intro conjI impI allI)
  assume "query params = None \<or> query params = Some []"
  then have "\<not> truthy (query params)" by (auto simp: truthy_def)
  then show "searchArticles E s params = searchArticles E s (params\<lparr>query := None\<rparr>)"
    by (simp add: searchArticles_no_query)
next
  fix q
  assume q: "query params = Some q \<and> q \<noteq> []"
  let ?P = "\<lambda>a. queryMatches q a \<and>
              (truthy (tag params) \<longrightarrow> the (tag params) \<in> set (tags (metadata a)))"
  have f: "applyFilters params (fst (getArticlesList E s)) = filter ?P (fst (getArticlesList E s))"
    using q by (intro applyFilters_query) simp_all
  have "set (allPages E s params) = set (applyFilters params (fst (getArticlesList E s)))"
    by (simp add: allPages_eq filteredSorted_def set_sort_cmp)
  then show "set (allPages E s params) = {a \<in> set (fst (getArticlesList E s)). ?P a}"
    by (simp only: f set_filter)
  show "totalCount (fst (searchArticles E s params)) = length (filter ?P (fst (getArticlesList E s)))"
    by (simp only: searchArticles_fields(2) length_filteredSorted f)
qed

text \<open>
  On the sample articles: the empty query finds what no query finds, and the query
  \<open>KUBER\<close> finds the one article with Kubernetes in its title.
\<close>

theorem C4_witness:
  "query (demoParams\<lparr>query := Some []\<rparr>) = Some [] \<and>
   searchArticles demoExt emptyService (demoParams\<lparr>query := Some []\<rparr>) =
     searchArticles demoExt emptyService demoParams \<and>
   query (demoParams\<lparr>query := Some ''KUBER''\<rparr>) = Some ''KUBER'' \<and> ''KUBER'' \<noteq> [] \<and>
   totalCount (fst (searchArticles demoExt emptyService (demoParams\<lparr>query := Some ''KUBER''\<rparr>))) = 1"
proof -
  have n: "demoParams\<lparr>query := Some [], query := None\<rparr> = demoParams"
    by (simp add: demoParams_def)
  have a: "searchArticles demoExt emptyService (demoParams\<lparr>query := Some []\<rparr>) =
           searchArticles demoExt emptyService demoParams"
    using C4_query_filter [of "demoParams\<lparr>query := Some []\<rparr>" demoExt emptyService,
        THEN conjunct1]
    by (simp add: n)
  have l: "fst (getArticlesList demoExt emptyService) = map ArticleListItem.truncate
             [demo_linux, demo_ai, demo_docker, demo_apache]"
    by (simp add: getArticlesList_def demo_getArticles ArticleListItem.truncate_def)
  have e: "length (filter (\<lambda>a. queryMatches ''KUBER'' a \<and>
              (truthy (tag (demoParams\<lparr>query := Some ''KUBER''\<rparr>)) \<longrightarrow>
               the (tag (demoParams\<lparr>query := Some ''KUBER''\<rparr>)) \<in> set (tags (metadata a))))
            (map ArticleListItem.truncate [demo_linux, demo_ai, demo_docker, demo_apache])) = 1"
    by code_simp
  have q: "query (demoParams\<lparr>query := Some ''KUBER''\<rparr>) = Some ''KUBER'' \<and> ''KUBER'' \<noteq> []"
    by simp
  have b: "totalCount (fst (searchArticles demoExt emptyService
             (demoParams\<lparr>query := Some ''KUBER''\<rparr>))) = 1"
    using C4_query_filter [of "demoParams\<lparr>query := Some ''KUBER''\<rparr>" demoExt emptyService,
        THEN conjunct2, rule_format, OF q, THEN conjunct2]
    by (simp only: l e)
  show ?thesis using a b by simp
qed

section \<open>Tag counts\<close>

text \<open>
  C5, as stated: a tag is counted once for each article that carries it. On the sample
  documents the tag \<open>apache\<close> is carried by one article, which lists it twice, and
  \<open>getAllTags\<close> counts 2.
\<close>

theorem C5_counterexample:
  "fst (getAllTags demoExt emptyService) =
     [\<lparr>TagCount.tag = ''php'', count = 2\<rparr>, \<lparr>TagCount.tag = ''apache'', count = 2\<rparr>,
      \<lparr>TagCount.tag = ''linux'', count = 1\<rparr>, \<lparr>TagCount.tag = ''docker'', count = 1\<rparr>] \<and>
   articlesCarrying (fst (getArticles demoExt emptyService)) ''apache'' = 1"
  by code_simp

text \<open>
  C5, amended. \<open>getAllTags\<close> counts every listing of a tag: the count of a tag is
  the number of times it occurs in the tag lists of the articles of the index, so an
  article that lists a tag twice adds 2. Each tag of the index appears once in the
  result. The result is ordered by count, largest first, and the tags of one count
  stand in the order in which they are first met in the index.
\<close>

theorem C5_getAllTags_counts_occurrences:
  "(\<forall>tc \<in> set (fst (getAllTags E s)).
      TagCount.count tc = occurrences (fst (getArticles E s)) (TagCount.tag tc)) \<and>
   set (map TagCount.tag (fst (getAllTags E s))) = set (tagsInOrder (fst (getArticles E s))) \<and>
   distinct (map TagCount.tag (fst (getAllTags E s))) \<and>
   sorted_wrt (\<lambda>a b. TagCount.count b \<le> TagCount.count a) (fst (getAllTags E s)) \<and>
   (\<forall>n. map TagCount.tag (filter (\<lambda>tc. TagCount.count tc = n) (fst (getAllTags E s))) =
        filter (\<lambda>t. occurrences (fst (getArticles E s)) t = n)
          (firstEncountered (tagsInOrder (fst (getArticles E s)))))"
proof -
  let ?idx = "fst (getArticles E s)"
  let ?cmp = "\<lambda>a b. Some (int (TagCount.count b) - int (TagCount.count a))"
  let ?mk = "\<lambda>t. \<lparr>TagCount.tag = t, count = occurrences ?idx t\<rparr>"
  let ?keys = "firstEncountered (tagsInOrder ?idx)"
  let ?base = "map ?mk ?keys"
  have r: "fst (getAllTags E s) = sort_cmp ?cmp ?base" by (rule getAllTags_eq)
  have a: "\<forall>tc \<in> set (sort_cmp ?cmp ?base). TagCount.count tc = occurrences ?idx (TagCount.tag tc)"
    by (auto simp: set_sort_cmp)
  have k: "map TagCount.tag ?base = ?keys" by (simp add: comp_def)
  have "mset (map TagCount.tag (sort_cmp ?cmp ?base)) = mset (map TagCount.tag ?base)"
    by (simp only: mset_map mset_sort_cmp)
  then have m: "mset (map TagCount.tag (sort_cmp ?cmp ?base)) = mset ?keys"
    by (simp only: k)
  have "set_mset (mset (map TagCount.tag (sort_cmp ?cmp ?base))) = set_mset (mset ?keys)"
    by (simp only: m)
  then have b: "set (map TagCount.tag (sort_cmp ?cmp ?base)) = set (tagsInOrder ?idx)"
    by (simp add: firstEncountered_def)
  have c: "distinct (map TagCount.tag (sort_cmp ?cmp ?base))"
    using mset_eq_imp_distinct_iff [OF m] distinct_firstEncountered by simp
  have d: "sorted_wrt (\<lambda>a b. TagCount.count b \<le> TagCount.count a) (sort_cmp ?cmp ?base)"
    using sorted_sort_cmp [OF desc_by_count] by simp
  have e: "map TagCount.tag (filter (\<lambda>tc. TagCount.count tc = n) (sort_cmp ?cmp ?base)) =
           filter (\<lambda>t. occurrences ?idx t = n) ?keys" for n
  proof -
    have "filter (\<lambda>tc. TagCount.count tc = n) (sort_cmp ?cmp ?base) =
          filter (\<lambda>tc. TagCount.count tc = n) ?base"
      using filter_sort_cmp [OF desc_by_count] by simp
    then show ?thesis by (simp add: filter_map comp_def)
  qed
  show ?thesis unfolding r by (intro conjI allI a b c d e)
qed

text \<open>On the sample documents: \<open>apache\<close> occurs twice and is counted twice.\<close>

theorem C5_witness:
  "\<lparr>TagCount.tag = ''apache'', count = 2\<rparr> \<in> set (fst (getAllTags demoExt emptyService)) \<and>
   occurrences (fst (getArticles demoExt emptyService)) ''apache'' = 2"
proof -
  have m: "\<lparr>TagCount.tag = ''apache'', count = 2\<rparr> \<in> set (fst (getAllTags demoExt emptyService))"
    by code_simp
  from C5_getAllTags_counts_occurrences [of demoExt emptyService, THEN conjunct1, rule_format, OF m]
  show ?thesis using m by simp
qed

section \<open>The excerpt\<close>

text \<open>
  C6. For every body and every maximum length \<open>L\<close> (a length, so not negative) the
  excerpt is at most \<open>L\<close> plus the length of the ellipsis marker long.
\<close>

theorem C6_excerpt_length_bound:
  assumes "0 \<le> L"
  shows "int (length (extractExcerpt body L)) \<le> L + int (length ''...'')"
proof (cases "int (length (plainText body)) \<le> L")
  case True
  then show ?thesis by (simp add: extractExcerpt_def Let_def)
next
  case False
  have "length (substring0 (substring0 (plainText body) L) i) \<le> nat L" for i
    by (simp add: substring0_def)
  then have a: "int (length (substring0 (substring0 (plainText body) L) i)) \<le> L" for i
    using assms by (simp add: le_nat_iff)
  have "length (substring0 (plainText body) L) \<le> nat L"
    by (simp add: substring0_def)
  then have b: "int (length (substring0 (plainText body) L)) \<le> L"
    using assms by (simp add: le_nat_iff)
  show ?thesis
  proof (cases "real_of_int (lastIndexOf (substring0 (plainText body) L) CHR '' '')
                  > real_of_int L * 0.8")
    case True
    then have "extractExcerpt body L =
      substring0 (substring0 (plainText body) L)
        (lastIndexOf (substring0 (plainText body) L) CHR '' '') @ ''...''"
      using False by (simp add: extractExcerpt_def Let_def)
    then show ?thesis using a by simp
  next
    case c: False
    then have "extractExcerpt body L = substring0 (plainText body) L @ ''...''"
      using False by (simp add: extractExcerpt_def Let_def)
    then show ?thesis using b by simp
  qed
qed

text \<open>A body of nine characters cut at 5: the excerpt has 8 characters.\<close>

theorem C6_witness:
  "(0::int) \<le> 5 \<and> extractExcerpt ''abcd efgh'' 5 = ''abcd ...'' \<and>
   int (length (extractExcerpt ''abcd efgh'' 5)) \<le> 5 + int (length ''...'')"
proof -
  have e: "extractExcerpt ''abcd efgh'' 5 = ''abcd ...''" by code_simp
  show ?thesis using C6_excerpt_length_bound [of 5 "''abcd efgh''"] e by simp
qed

text \<open>
  C7, as stated: the excerpt backs up to the last whitespace when that lies at or after
  80% of \<open>maxLength\<close>. With \<open>maxLength\<close> 5 and the plain text \<open>abcd efgh\<close> the
  last whitespace of the cut text is at index 4, which is 80% of 5; backing up would
  give \<open>abcd...\<close>, and \<open>extractExcerpt\<close> keeps the hard cut \<open>abcd ...\<close>.
\<close>

theorem C7_counterexample:
  "5 < int (length (plainText ''abcd efgh'')) \<and>
   lastWhitespace (take 5 (plainText ''abcd efgh'')) = Some 4 \<and>
   real_of_int 5 * 0.8 \<le> real 4 \<and>
   truncateAtOrAfter (plainText ''abcd efgh'') 5 = ''abcd...'' \<and>
   extractExcerpt ''abcd efgh'' 5 = ''abcd ...''"
proof -
  have p: "plainText ''abcd efgh'' = ''abcd efgh''" by code_simp
  have w: "lastWhitespace (take 5 ''abcd efgh'') = Some 4" by code_simp
  have e: "extractExcerpt ''abcd efgh'' 5 = ''abcd ...''" by code_simp
  show ?thesis using w e by (simp add: p truncateAtOrAfter_def)
qed

text \<open>
  C7, amended. For a body whose plain text is longer than \<open>maxLength\<close>, the excerpt
  is the plain text cut at \<open>maxLength\<close>, backed up to the last whitespace if and only
  if that lies strictly after 80% of \<open>maxLength\<close>, with the ellipsis marker appended
  in either case.
\<close>

theorem C7_backs_up_strictly_after_80_percent:
  assumes "L < int (length (plainText body))"
  shows "extractExcerpt body L = truncateStrictlyAfter (plainText body) L"
proof -
  let ?t = "take (nat L) (plainText body)"
  have "\<forall>c \<in> set ?t. is_space c \<longrightarrow> c = CHR '' ''"
    using plainText_ws_normal by (meson in_set_takeD)
  then have li: "lastIndexOf ?t CHR '' '' =
                 (case lastWhitespace ?t of None \<Rightarrow> - 1 | Some i \<Rightarrow> int i)"
    by (rule lastIndexOf_space)
  have ex: "extractExcerpt body L =
        (if real_of_int (lastIndexOf ?t CHR '' '') > real_of_int L * 0.8
         then take (nat (lastIndexOf ?t CHR '' '')) ?t @ ''...'' else ?t @ ''...'')"
    using assms by (simp add: extractExcerpt_def Let_def substring0_def)
  show ?thesis
  proof (cases "lastWhitespace ?t")
    case None
    then have "lastIndexOf ?t CHR '' '' = - 1" using li by simp
    then have "extractExcerpt body L = ?t @ ''...''"
      by (simp add: ex)
    then show ?thesis using None by (simp add: truncateStrictlyAfter_def)
  next
    case (Some i)
    then have "lastIndexOf ?t CHR '' '' = int i" using li by simp
    then show ?thesis using Some by (simp add: ex truncateStrictlyAfter_def)
  qed
qed

text \<open>With \<open>maxLength\<close> 10 and a whitespace at index 9 the excerpt backs up.\<close>

theorem C7_witness:
  "10 < int (length (plainText ''abcdefghi jklm'')) \<and>
   extractExcerpt ''abcdefghi jklm'' 10 = truncateStrictlyAfter (plainText ''abcdefghi jklm'') 10 \<and>
   extractExcerpt ''abcdefghi jklm'' 10 = ''abcdefghi...''"
proof -
  have p: "plainText ''abcdefghi jklm'' = ''abcdefghi jklm''" by code_simp
  have e: "extractExcerpt ''abcdefghi jklm'' 10 = ''abcdefghi...''" by code_simp
  have h: "10 < int (length (plainText ''abcdefghi jklm''))" by (simp add: p)
  show ?thesis
    using C7_backs_up_strictly_after_80_percent [OF h] h e by simp
qed

section \<open>Slugs in the index\<close>

text \<open>
  C8, as stated: slug is unique within the index, a later document with the slug of an
  earlier one replacing it. The sample documents show otherwise: the documents
  \<open>docker-optimization-production.md\<close> and \<open>apache-execcgi-fpm.md\<close> both
  declare the slug \<open>shared\<close>, and the index holds both articles.
\<close>

theorem C8_counterexample:
  "map filename (articles (loadArticles demoExt emptyService)) =
     [''linux-performance-monitoring.md'', ''ai-model-deployment-kubernetes.md'',
      ''docker-optimization-production.md'', ''apache-execcgi-fpm.md''] \<and>
   map (slug \<circ> metadata) (articles (loadArticles demoExt emptyService)) =
     [''linux-monitoring'', ''ai-k8s'', ''shared'', ''shared''] \<and>
   \<not> distinct (map (slug \<circ> metadata) (articles (loadArticles demoExt emptyService)))"
  by (simp add: demo_index demo_linux_def demo_ai_def demo_docker_def demo_apache_def)

text \<open>
  C8, amended. The index after a load holds exactly one article for each document that
  was retrieved, parsed and validated, documents of equal slug included: the index is
  a rearrangement of the articles pushed by the loop, whose file names are the valid
  documents in document order. The slug of each article is the declared one when that
  is present and not empty, and \<open>generateSlug\<close> of the title otherwise.
\<close>

theorem C8_every_valid_document_is_kept:
  "mset (articles (loadArticles E s)) = mset (loadedArticles E getArticleFiles) \<and>
   map filename (loadedArticles E getArticleFiles) =
     filter (\<lambda>n. loadSingleArticle E n \<noteq> None) getArticleFiles \<and>
   (\<forall>n a. loadSingleArticle E n = Some a \<longrightarrow>
      filename a = n \<and>
      (\<exists>raw d body. fetchText E n = Some raw \<and> matter E raw = Some (d, body) \<and>
         slug (metadata a) =
           (if truthy (fm_slug d) then the (fm_slug d) else generateSlug E (the (fm_title d)))))"
proof -
  have "mset (articles (loadArticles E s)) = mset (loadedArticles E getArticleFiles)"
    by (simp add: loadArticles_def mset_sort_cmp)
  moreover have "\<forall>n a. loadSingleArticle E n = Some a \<longrightarrow>
      filename a = n \<and>
      (\<exists>raw d body. fetchText E n = Some raw \<and> matter E raw = Some (d, body) \<and>
         slug (metadata a) =
           (if truthy (fm_slug d) then the (fm_slug d) else generateSlug E (the (fm_title d))))"
    using loadSingleArticle_Some by blast
  ultimately show ?thesis using filename_loadedArticles by blast
qed

text \<open>The sample document \<open>docker-optimization-production.md\<close> loads and is kept.\<close>

theorem C8_witness:
  "loadSingleArticle demoExt ''docker-optimization-production.md'' = Some demo_docker \<and>
   filename demo_docker = ''docker-optimization-production.md'' \<and>
   mset (articles (loadArticles demoExt emptyService)) =
     mset [demo_apache, demo_linux, demo_ai, demo_docker]"
proof -
  have l: "loadSingleArticle demoExt ''docker-optimization-production.md'' = Some demo_docker"
    by code_simp
  show ?thesis
    using l C8_every_valid_document_is_kept [of demoExt emptyService]
    by (simp add: demo_loaded)
qed

section \<open>Concurrent first calls\<close>

text \<open>
  C9, as stated: when several callers invoke \<open>getArticles\<close> on the unloaded index,
  each document is retrieved exactly once. With the sample documents, two calls of
  \<open>getArticles\<close> made before the constructor's load has resumed, and every load then
  run to completion: the first document has been fetched three times.
\<close>

theorem C9_counterexample:
  "inFlight (run demoExt ([GetArticles, GetArticles] @ replicate 18 (Resume 0)) construct) = [] \<and>
   count_list (retrievals (run demoExt ([GetArticles, GetArticles] @ replicate 18 (Resume 0)) construct))
     ''apache-execcgi-fpm.md'' = 3"
  by code_simp

text \<open>
  C9, amended. There is no single-flight guard: every call of \<open>getArticles\<close> that
  finds the index empty starts a load of its own, beside the load that the constructor
  started. When \<open>N\<close> callers invoke \<open>getArticles\<close> before any load has resumed,
  \<open>N + 1\<close> loads are in flight, and however their resumptions interleave, once all
  of them have ended each document identifier has been retrieved \<open>N + 1\<close> times.
\<close>

theorem C9_every_call_on_an_empty_index_starts_a_load:
  "length (inFlight (run E (replicate N GetArticles) construct)) = N + 1 \<and>
   (\<forall>sched f.
      inFlight (run E (replicate N GetArticles @ map Resume sched) construct) = [] \<and>
      f \<in> set getArticleFiles \<longrightarrow>
      count_list (retrievals (run E (replicate N GetArticles @ map Resume sched) construct)) f =
        N + 1)"
proof -
  let ?fresh = "\<lparr>remaining = getArticleFiles, loadedSoFar = []\<rparr>"
  let ?w = "run E (replicate N GetArticles) construct"
  have "articles (service construct) = []" by (simp add: construct_def startLoad_def)
  then have w: "?w = construct\<lparr>inFlight := inFlight construct @ replicate N ?fresh\<rparr>"
    by (rule run_calls)
  have c: "inFlight construct = replicate 1 ?fresh" and r: "retrievals construct = []"
    by (simp_all add: construct_def startLoad_def)
  have fl: "inFlight ?w = replicate (N + 1) ?fresh"
    unfolding w using c by (simp add: replicate_add [symmetric] del: replicate_Suc replicate.simps)
  have rt: "retrievals ?w = []" unfolding w using r by simp
  have a: "length (inFlight ?w) = N + 1" by (simp add: fl)
  have b: "count_list (retrievals (run E (replicate N GetArticles @ map Resume sched) construct)) f
             = N + 1"
    if "inFlight (run E (replicate N GetArticles @ map Resume sched) construct) = [] \<and>
        f \<in> set getArticleFiles" for sched f
  proof -
    let ?v = "run E (map Resume sched) ?w"
    have v: "run E (replicate N GetArticles @ map Resume sched) construct = ?v"
      by (rule run_append)
    have "count_list (retrievals ?v) f + pending f (inFlight ?v) =
          count_list (retrievals ?w) f + pending f (inFlight ?w)"
      by (rule run_resume_invariant)
    moreover have "pending f (inFlight ?v) = 0"
      using that by (simp add: v [symmetric] pending_def)
    moreover have "pending f (inFlight ?w) = (N + 1) * 1"
      using that by (simp only: fl pending_replicate count_getArticleFiles)
    ultimately show ?thesis by (simp add: v rt)
  qed
  show ?thesis using a b by blast
qed

text \<open>Two callers and the sample documents: three retrievals of the first document.\<close>

theorem C9_witness:
  "inFlight (run demoExt (replicate 2 GetArticles @ map Resume (replicate 18 0)) construct) = [] \<and>
   ''apache-execcgi-fpm.md'' \<in> set getArticleFiles \<and>
   count_list (retrievals (run demoExt (replicate 2 GetArticles @ map Resume (replicate 18 0)) construct))
     ''apache-execcgi-fpm.md'' = 2 + 1"
proof -
  have h: "inFlight (run demoExt (replicate 2 GetArticles @ map Resume (replicate 18 0)) construct) = [] \<and>
           ''apache-execcgi-fpm.md'' \<in> set getArticleFiles"
    by code_simp
  from C9_every_call_on_an_empty_index_starts_a_load [of demoExt 2, THEN conjunct2, rule_format, OF h]
  show ?thesis using h by simp
qed

section \<open>Lookup by slug\<close>



end
